theory Spec2Isabelle
  imports Complex_Main "HOL-Library.Multiset"
begin

section \<open>Shared helpers for the JavaScript built-ins the engine relies on\<close>

text \<open>
  \<open>Array.from(new Set(arr))\<close>: a JavaScript \<open>Set\<close> iterates in insertion order and
  ignores a value that is already present, so the result keeps the first occurrence of
  every element (the library's \<open>remdups\<close> keeps the last one, hence the two reversals).
\<close>

definition uniq :: "'a list \<Rightarrow> 'a list" where
  "uniq arr = rev (remdups (rev arr))"

text \<open>
  \<open>String.prototype.trim\<close> on the ASCII white space characters (space, tab, line feed,
  vertical tab, form feed, carriage return). Strings are byte lists here; the white space
  code points outside ASCII that \<open>trim\<close> also strips are not represented.
\<close>

definition is_ws :: "char \<Rightarrow> bool" where
  "is_ws c = (c \<in> set [CHR '' '', CHR 0x09, CHR 0x0A, CHR 0x0B, CHR 0x0C, CHR 0x0D])"

definition trim :: "string \<Rightarrow> string" where
  "trim s = rev (dropWhile is_ws (rev (dropWhile is_ws s)))"

section \<open>TwoRoundFixtureBuilder: \<open>saveRound1AndGenerateRound2\<close>\<close>

text \<open>
  The draft type of the source: \<open>{ match_number: number; home_team_id: string;
  away_team_id: string }\<close>. The rows written to the \<open>fixtures\<close> table carry the columns
  the function sets itself (\<open>id\<close> and \<open>created_at\<close> are filled in by the store).
  The defaults \<open>drafts ?? []\<close> and \<open>d.home_team_id ?? ""\<close> never fire on values of
  the declared types and are not modelled.
\<close>

record draft =
  d_match_number :: int
  d_home_team_id :: string
  d_away_team_id :: string

datatype fixture_source = manual | auto_reverse

record fixture_row =
  f_tournament_id :: string
  f_round_number :: nat
  f_match_number :: int
  f_home_team_id :: string
  f_away_team_id :: string
  f_is_bye :: bool
  f_source :: fixture_source

text \<open>
  The three \<open>throw new Error(...)\<close> of the validation, in the order of the source, each
  carrying the match number its message prints, and the error object of a failed store
  call, which the function rethrows.
\<close>

datatype fixture_error =
    IncompletePairing int
  | SelfPairing int
  | DuplicateTeamUsage
  | StoreError string

definition cleaned :: "draft list \<Rightarrow> draft list" where
  "cleaned drafts =
     map (\<lambda>d. \<lparr> d_match_number = d_match_number d,
                d_home_team_id = trim (d_home_team_id d),
                d_away_team_id = trim (d_away_team_id d) \<rparr>) drafts"

text \<open>The \<open>for (const d of cleaned)\<close> loop: the first draft that fails a check throws.\<close>

fun validate :: "draft list \<Rightarrow> fixture_error option" where
  "validate [] = None"
| "validate (d # ds) =
     (if d_home_team_id d = [] \<or> d_away_team_id d = []
        then Some (IncompletePairing (d_match_number d))
      else if d_home_team_id d = d_away_team_id d
        then Some (SelfPairing (d_match_number d))
      else validate ds)"

definition used :: "draft list \<Rightarrow> string list" where
  "used cs = concat (map (\<lambda>d. [d_home_team_id d, d_away_team_id d]) cs)"

definition round1Rows :: "string \<Rightarrow> draft list \<Rightarrow> fixture_row list" where
  "round1Rows tournamentId cs =
     map (\<lambda>d. \<lparr> f_tournament_id = tournamentId, f_round_number = 1,
                f_match_number = d_match_number d,
                f_home_team_id = d_home_team_id d,
                f_away_team_id = d_away_team_id d,
                f_is_bye = False, f_source = manual \<rparr>) cs"

definition round2Rows :: "string \<Rightarrow> draft list \<Rightarrow> fixture_row list" where
  "round2Rows tournamentId cs =
     map (\<lambda>d. \<lparr> f_tournament_id = tournamentId, f_round_number = 2,
                f_match_number = d_match_number d,
                f_home_team_id = d_away_team_id d,
                f_away_team_id = d_home_team_id d,
                f_is_bye = False, f_source = auto_reverse \<rparr>) cs"

text \<open>
  The \<open>fixtures\<close> table is the list of its rows. \<open>delete().eq("tournament_id", t)\<close>
  removes the rows of tournament \<open>t\<close>; \<open>insert(rows)\<close> appends. Either call may hand back
  an error object (\<open>delErr\<close>, \<open>insErr\<close>: \<open>None\<close> when the call succeeds), in which case
  that call changes nothing and the function throws. The result pairs what the function
  returns or throws with the table as it is left.
\<close>

definition saveRound1AndGenerateRound2 ::
  "string option \<Rightarrow> string option \<Rightarrow> fixture_row list \<Rightarrow> string \<Rightarrow> draft list
     \<Rightarrow> (fixture_error + bool) \<times> fixture_row list" where
  "saveRound1AndGenerateRound2 delErr insErr fixtures tournamentId drafts =
     (let cs = cleaned drafts in
      case validate cs of
        Some e \<Rightarrow> (Inl e, fixtures)
      | None \<Rightarrow>
          if length (uniq (used cs)) \<noteq> length (used cs) then (Inl DuplicateTeamUsage, fixtures)
          else (case delErr of
                  Some msg \<Rightarrow> (Inl (StoreError msg), fixtures)
                | None \<Rightarrow>
                    (let fixtures' = filter (\<lambda>f. f_tournament_id f \<noteq> tournamentId) fixtures in
                     case insErr of
                       Some msg \<Rightarrow> (Inl (StoreError msg), fixtures')
                     | None \<Rightarrow>
                         (Inr True,
                          fixtures' @ round1Rows tournamentId cs @ round2Rows tournamentId cs))))"


section \<open>StandingsAggregator: the \<open>standings\<close> memo of the dashboard\<close>

text \<open>
  The rows the computation reads. Of \<open>TeamRow\<close> and \<open>TournamentTeamRow\<close> only the
  columns the engine touches are kept. A column typed \<open>string | null\<close> or
  \<open>number | null\<close> is an option; scores are the integers of the \<open>matches\<close> table.
\<close>

record TeamRow =
  t_id :: string
  t_name :: string

record TournamentTeamRow =
  tt_tournament_id :: string
  tt_team_id :: string

record MatchRow =
  m_id :: string
  m_tournament_id :: string
  m_round :: "int option"
  m_home_team_id :: "string option"
  m_away_team_id :: "string option"
  m_player1_email :: "string option"
  m_player2_email :: "string option"
  m_player1_score :: "int option"
  m_player2_score :: "int option"
  m_played_at :: "string option"

record StandingRow =
  team_id :: string
  team_name :: string
  played :: int
  wins :: int
  draws :: int
  losses :: int
  gf :: int
  ga :: int
  gd :: int
  pts :: int

text \<open>
  JavaScript truthiness of a \<open>string | null\<close>: \<open>null\<close> and the empty string are falsy.
  \<open>isPlayed(m)\<close> is \<open>Boolean(m.played_at)\<close>.
\<close>

definition truthy :: "string option \<Rightarrow> bool" where
  "truthy v = (case v of None \<Rightarrow> False | Some s \<Rightarrow> s \<noteq> [])"

definition isPlayed :: "MatchRow \<Rightarrow> bool" where
  "isPlayed m = truthy (m_played_at m)"

text \<open>\<open>teamById\<close>: \<open>for (const t of teams) m.set(t.id, t)\<close>, a later row replacing an
  earlier one with the same id.\<close>

primrec teamById_loop :: "TeamRow list \<Rightarrow> (string \<rightharpoonup> TeamRow) \<Rightarrow> (string \<rightharpoonup> TeamRow)" where
  "teamById_loop [] m = m"
| "teamById_loop (t # ts) m = teamById_loop ts (m(t_id t \<mapsto> t))"

definition teamById :: "TeamRow list \<Rightarrow> (string \<rightharpoonup> TeamRow)" where
  "teamById teams = teamById_loop teams Map.empty"

text \<open>
  The \<open>Map<string, StandingRow>\<close> is an association list in insertion order.
  \<open>map_set\<close> is \<open>Map.prototype.set\<close> (an existing key keeps its place); the row objects
  are mutated through the references \<open>map.get\<close> hands out, so an update is made at the
  key: when the home and the away id of a match are the same, \<open>home\<close> and \<open>away\<close>
  are one object and both updates land on it.
\<close>

type_synonym table = "(string \<times> StandingRow) list"

fun map_set :: "string \<Rightarrow> StandingRow \<Rightarrow> table \<Rightarrow> table" where
  "map_set k v [] = [(k, v)]"
| "map_set k v ((k', v') # kvs) =
     (if k' = k then (k, v) # kvs else (k', v') # map_set k v kvs)"

definition modify :: "string \<Rightarrow> (StandingRow \<Rightarrow> StandingRow) \<Rightarrow> table \<Rightarrow> table" where
  "modify k f mp = map (\<lambda>(k', r). (k', if k' = k then f r else r)) mp"

definition zero_row :: "(string \<rightharpoonup> TeamRow) \<Rightarrow> string \<Rightarrow> StandingRow" where
  "zero_row byId teamId =
     \<lparr> team_id = teamId,
       team_name = (case byId teamId of None \<Rightarrow> teamId | Some t \<Rightarrow> t_name t),
       played = 0, wins = 0, draws = 0, losses = 0, gf = 0, ga = 0, gd = 0, pts = 0 \<rparr>"

text \<open>The seeding loop \<open>for (const teamId of tourTeamIds) map.set(teamId, {...})\<close>.\<close>

primrec seed_loop :: "(string \<rightharpoonup> TeamRow) \<Rightarrow> string list \<Rightarrow> table \<Rightarrow> table" where
  "seed_loop byId [] mp = mp"
| "seed_loop byId (teamId # rest) mp = seed_loop byId rest (map_set teamId (zero_row byId teamId) mp)"

text \<open>
  The body of \<open>for (const m of matches)\<close>: the three \<open>continue\<close> guards, the two
  look-ups with their guard, then the statements in the order of the source.
\<close>

definition tally :: "MatchRow \<Rightarrow> table \<Rightarrow> table" where
  "tally m mp =
     (if \<not> truthy (m_home_team_id m) \<or> \<not> truthy (m_away_team_id m) then mp
      else if \<not> isPlayed m then mp
      else case (m_player1_score m, m_player2_score m) of
        (Some s1, Some s2) \<Rightarrow>
          (let h = the (m_home_team_id m); a = the (m_away_team_id m) in
           case (map_of mp h, map_of mp a) of
             (Some _, Some _) \<Rightarrow>
               (let mp = modify h (\<lambda>r. r\<lparr>played := played r + 1\<rparr>) mp;
                    mp = modify a (\<lambda>r. r\<lparr>played := played r + 1\<rparr>) mp;
                    mp = modify h (\<lambda>r. r\<lparr>gf := gf r + s1\<rparr>) mp;
                    mp = modify h (\<lambda>r. r\<lparr>ga := ga r + s2\<rparr>) mp;
                    mp = modify a (\<lambda>r. r\<lparr>gf := gf r + s2\<rparr>) mp;
                    mp = modify a (\<lambda>r. r\<lparr>ga := ga r + s1\<rparr>) mp
                in if s1 > s2 then
                     modify h (\<lambda>r. r\<lparr>pts := pts r + 3\<rparr>)
                       (modify a (\<lambda>r. r\<lparr>losses := losses r + 1\<rparr>)
                         (modify h (\<lambda>r. r\<lparr>wins := wins r + 1\<rparr>) mp))
                   else if s1 < s2 then
                     modify a (\<lambda>r. r\<lparr>pts := pts r + 3\<rparr>)
                       (modify h (\<lambda>r. r\<lparr>losses := losses r + 1\<rparr>)
                         (modify a (\<lambda>r. r\<lparr>wins := wins r + 1\<rparr>) mp))
                   else
                     modify a (\<lambda>r. r\<lparr>pts := pts r + 1\<rparr>)
                       (modify h (\<lambda>r. r\<lparr>pts := pts r + 1\<rparr>)
                         (modify a (\<lambda>r. r\<lparr>draws := draws r + 1\<rparr>)
                           (modify h (\<lambda>r. r\<lparr>draws := draws r + 1\<rparr>) mp))))
           | _ \<Rightarrow> mp)
      | _ \<Rightarrow> mp)"

primrec tally_loop :: "MatchRow list \<Rightarrow> table \<Rightarrow> table" where
  "tally_loop [] mp = mp"
| "tally_loop (m # ms) mp = tally_loop ms (tally m mp)"

text \<open>
  The comparator handed to \<open>list.sort\<close>: a negative result puts \<open>a\<close> first.
\<close>

definition standings_cmp :: "StandingRow \<Rightarrow> StandingRow \<Rightarrow> int" where
  "standings_cmp a b =
     (if pts b \<noteq> pts a then pts b - pts a
      else if gd b \<noteq> gd a then gd b - gd a
      else gf b - gf a)"

text \<open>
  \<open>Array.prototype.sort\<close> is a built-in: ECMAScript requires it to be stable, and for a
  consistent comparator every stable sort returns the same array. It is modelled as the
  stable insertion sort by the comparator (an element goes in front of the first one it
  does not compare greater than).
\<close>

fun insort_cmp :: "('a \<Rightarrow> 'a \<Rightarrow> int) \<Rightarrow> 'a \<Rightarrow> 'a list \<Rightarrow> 'a list" where
  "insort_cmp c x [] = [x]"
| "insort_cmp c x (y # ys) = (if c x y \<le> 0 then x # y # ys else y # insort_cmp c x ys)"

primrec sort_cmp :: "('a \<Rightarrow> 'a \<Rightarrow> int) \<Rightarrow> 'a list \<Rightarrow> 'a list" where
  "sort_cmp c [] = []"
| "sort_cmp c (x # xs) = insort_cmp c x (sort_cmp c xs)"

definition standings :: "TeamRow list \<Rightarrow> TournamentTeamRow list \<Rightarrow> MatchRow list \<Rightarrow> StandingRow list" where
  "standings teams tournamentTeams matches =
     (let tourTeamIds = uniq (map tt_team_id tournamentTeams);
          mp = seed_loop (teamById teams) tourTeamIds [];
          mp = tally_loop matches mp;
          list = map (\<lambda>(k, r). r\<lparr>gd := gf r - ga r\<rparr>) mp
      in sort_cmp standings_cmp list)"

text \<open>The place of a team id in a list of ids (its length when the id is not there).\<close>

primrec pos :: "'a \<Rightarrow> 'a list \<Rightarrow> nat" where
  "pos x [] = 0"
| "pos x (y # ys) = (if x = y then 0 else Suc (pos x ys))"


subsection \<open>The table the aggregator is expected to produce, team by team\<close>

text \<open>
  A match is counted when both team ids are truthy, \<open>played_at\<close> is truthy, both scores
  are set and both teams are in the pool. \<open>expected_row\<close> is the row of one team written
  as sums over the counted matches, with the team at home and with the team away.
\<close>

definition counted :: "string list \<Rightarrow> MatchRow \<Rightarrow> bool" where
  "counted pool m =
     (truthy (m_home_team_id m) \<and> truthy (m_away_team_id m) \<and> isPlayed m
      \<and> m_player1_score m \<noteq> None \<and> m_player2_score m \<noteq> None
      \<and> the (m_home_team_id m) \<in> set pool \<and> the (m_away_team_id m) \<in> set pool)"

definition home_games :: "string list \<Rightarrow> MatchRow list \<Rightarrow> string \<Rightarrow> (int \<times> int) list" where
  "home_games pool ms t =
     map (\<lambda>m. (the (m_player1_score m), the (m_player2_score m)))
       (filter (\<lambda>m. counted pool m \<and> m_home_team_id m = Some t) ms)"

definition away_games :: "string list \<Rightarrow> MatchRow list \<Rightarrow> string \<Rightarrow> (int \<times> int) list" where
  "away_games pool ms t =
     map (\<lambda>m. (the (m_player2_score m), the (m_player1_score m)))
       (filter (\<lambda>m. counted pool m \<and> m_away_team_id m = Some t) ms)"

text \<open>A game is a pair (goals scored, goals conceded) seen from the team's side.\<close>

definition expected_row ::
  "(string \<rightharpoonup> TeamRow) \<Rightarrow> string list \<Rightarrow> MatchRow list \<Rightarrow> string \<Rightarrow> StandingRow" where
  "expected_row byId pool ms t =
     (let games = home_games pool ms t @ away_games pool ms t;
          w = int (length (filter (\<lambda>(f, a). f > a) games));
          d = int (length (filter (\<lambda>(f, a). f = a) games));
          l = int (length (filter (\<lambda>(f, a). f < a) games));
          f = sum_list (map fst games);
          a = sum_list (map snd games)
      in \<lparr> team_id = t,
           team_name = (case byId t of None \<Rightarrow> t | Some tr \<Rightarrow> t_name tr),
           played = int (length games), wins = w, draws = d, losses = l,
           gf = f, ga = a, gd = f - a, pts = 3 * w + d \<rparr>)"

text \<open>What one counted match adds to the row of team \<open>t\<close>, home side first.\<close>

definition side :: "int \<Rightarrow> int \<Rightarrow> StandingRow \<Rightarrow> StandingRow" where
  "side f a r =
     r\<lparr> played := played r + 1, gf := gf r + f, ga := ga r + a,
        wins := wins r + (if f > a then 1 else 0),
        draws := draws r + (if f = a then 1 else 0),
        losses := losses r + (if f < a then 1 else 0),
        pts := pts r + (if f > a then 3 else if f = a then 1 else 0) \<rparr>"

definition credit :: "string list \<Rightarrow> string \<Rightarrow> MatchRow \<Rightarrow> StandingRow \<Rightarrow> StandingRow" where
  "credit pool t m r =
     (if counted pool m then
        (let s1 = the (m_player1_score m); s2 = the (m_player2_score m);
             r = (if m_home_team_id m = Some t then side s1 s2 r else r)
         in if m_away_team_id m = Some t then side s2 s1 r else r)
      else r)"

text \<open>An update through a reference: it changes the row of team \<open>t\<close> only when the
  reference is to that row.\<close>

definition step :: "string \<Rightarrow> (StandingRow \<Rightarrow> StandingRow) \<Rightarrow> string \<Rightarrow> StandingRow \<Rightarrow> StandingRow" where
  "step k f t r = (if t = k then f r else r)"


section \<open>The dashboard state, RosterGate and DrawAssigner\<close>

record PlayerRow =
  p_email :: string
  p_name :: "string option"
  p_role :: string

record TournamentPlayerRow =
  tp_tournament_id :: string
  tp_player_email :: string
  tp_team_id :: string

text \<open>
  The texts the dashboard shows, one constructor per string literal of the source (the
  literals are Serbian; a store error carries the store's own message):
  \<^item> \<open>RosterTooSmall\<close>: "at least 2 players are needed before locking the roster";
  \<^item> \<open>RosterLockedOk\<close>: "roster locked, next: the draw"; \<open>RosterUnlockedOk\<close>: "roster unlocked";
  \<^item> \<open>NoActiveTournament\<close>: "there is no active tournament";
  \<^item> \<open>RosterNotLocked\<close>: "first send the invites and lock the roster, only then the draw";
  \<^item> \<open>NeedTwoPlayers\<close>: "at least 2 players are needed";
  \<^item> \<open>InsufficientTeams\<close>: "not enough teams in the tournament (at least as many as players)";
  \<^item> \<open>DeleteOldDrawFailed\<close>, \<open>DrawInsertFailed\<close>: the store refused the delete or the insert;
  \<^item> \<open>DrawDone\<close>: "draw finished";
  \<^item> \<open>InvalidScore\<close>: "enter both results as numbers (e.g. 2 and 1)";
  \<^item> \<open>SaveResultFailed\<close>: the store refused the update.
\<close>

datatype message =
    RosterTooSmall
  | RosterLockedOk
  | RosterUnlockedOk
  | NoActiveTournament
  | RosterNotLocked
  | NeedTwoPlayers
  | InsufficientTeams
  | DeleteOldDrawFailed string
  | DrawInsertFailed string
  | DrawDone
  | InvalidScore
  | SaveResultFailed string

text \<open>
  The part of the component state these operations read and write (\<open>useState\<close> cells
  under their own names), the browser's \<open>localStorage\<close>, and the \<open>tournament_players\<close>
  table of the store.
\<close>

record dashboard =
  role :: "string option"
  activeTournamentId :: "string option"
  rosterLocked :: bool
  players :: "PlayerRow list"
  tournamentTeams :: "TournamentTeamRow list"
  inviteMsg :: "message option"
  tpMsg :: "message option"
  mMsg :: "message option"
  drawing :: bool
  editingMatchId :: "string option"
  editHomeGoals :: string
  editAwayGoals :: string
  savingMatchId :: "string option"
  localStorage :: "string \<rightharpoonup> string"
  tournament_players :: "TournamentPlayerRow list"

definition isAdmin :: "string option \<Rightarrow> bool" where
  "isAdmin r = (r = Some ''admin'')"

definition rosterKey :: "string \<Rightarrow> string" where
  "rosterKey tournamentId = ''rosterLocked:'' @ tournamentId"

definition onlyPlayers :: "dashboard \<Rightarrow> PlayerRow list" where
  "onlyPlayers s = filter (\<lambda>p. p_role p = ''player'') (players s)"

text \<open>
  \<open>lockRoster\<close> and \<open>unlockRoster\<close>. \<open>ok\<close> is what \<open>safeConfirm\<close> returns: the
  administrator's answer, and \<open>false\<close> where there is no \<open>window\<close>; so \<open>window\<close> exists
  whenever the code after the confirmation runs, and \<open>localStorage\<close> is written.
\<close>

definition lockRoster :: "bool \<Rightarrow> dashboard \<Rightarrow> dashboard" where
  "lockRoster ok s =
     (if \<not> isAdmin (role s) then s
      else if \<not> truthy (activeTournamentId s) then s
      else if length (onlyPlayers s) < 2
        then s\<lparr> inviteMsg := None, tpMsg := Some RosterTooSmall \<rparr>
      else if \<not> ok then s
      else s\<lparr> localStorage := (localStorage s)(rosterKey (the (activeTournamentId s)) \<mapsto> ''1''),
              rosterLocked := True,
              tpMsg := Some RosterLockedOk \<rparr>)"

definition unlockRoster :: "bool \<Rightarrow> dashboard \<Rightarrow> dashboard" where
  "unlockRoster ok s =
     (if \<not> isAdmin (role s) then s
      else if \<not> truthy (activeTournamentId s) then s
      else if \<not> ok then s
      else s\<lparr> localStorage := (localStorage s)(rosterKey (the (activeTournamentId s)) := None),
              rosterLocked := False,
              tpMsg := Some RosterUnlockedOk \<rparr>)"

text \<open>
  \<open>shuffle\<close>: \<open>for (let i = a.length - 1; i > 0; i--)\<close> with
  \<open>j = Math.floor(Math.random() * (i + 1))\<close> and the swap of \<open>a[i]\<close> and \<open>a[j]\<close>.
  \<open>rnd k\<close> is the number the \<open>k\<close>-th call of \<open>Math.random\<close> returns, which the
  language places in \<open>[0, 1)\<close>; then \<open>j \<le> i\<close> and both indices are in range.
\<close>

fun shuffle_loop :: "(nat \<Rightarrow> rat) \<Rightarrow> nat \<Rightarrow> nat \<Rightarrow> 'a list \<Rightarrow> 'a list" where
  "shuffle_loop rnd k 0 a = a"
| "shuffle_loop rnd k (Suc i') a =
     (let i = Suc i';
          j = nat \<lfloor>rnd k * of_nat (i + 1)\<rfloor>
      in shuffle_loop rnd (Suc k) i' (a[i := a ! j, j := a ! i]))"

definition shuffle :: "(nat \<Rightarrow> rat) \<Rightarrow> 'a list \<Rightarrow> 'a list" where
  "shuffle rnd arr = shuffle_loop rnd 0 (length arr - 1) arr"

text \<open>
  \<open>drawTeamsForTournament\<close>. \<open>delErr\<close> and \<open>insErr\<close> are the error objects of the two
  store calls (\<open>None\<close> on success; a refused call changes nothing). The final reload of
  the assignments into the component state is a read and is left out.
\<close>

definition drawTeamsForTournament ::
  "(nat \<Rightarrow> rat) \<Rightarrow> string option \<Rightarrow> string option \<Rightarrow> dashboard \<Rightarrow> dashboard" where
  "drawTeamsForTournament rnd delErr insErr s =
     (if \<not> isAdmin (role s) then s
      else if \<not> truthy (activeTournamentId s) then s\<lparr> tpMsg := Some NoActiveTournament \<rparr>
      else if \<not> rosterLocked s then s\<lparr> tpMsg := Some RosterNotLocked \<rparr>
      else if length (onlyPlayers s) < 2 then s\<lparr> tpMsg := Some NeedTwoPlayers \<rparr>
      else if length (tournamentTeams s) < length (onlyPlayers s)
        then s\<lparr> tpMsg := Some InsufficientTeams \<rparr>
      else
        (let tid = the (activeTournamentId s);
             s = s\<lparr> drawing := True, tpMsg := None \<rparr>
         in case delErr of
              Some msg \<Rightarrow> s\<lparr> tpMsg := Some (DeleteOldDrawFailed msg), drawing := False \<rparr>
            | None \<Rightarrow>
                (let s = s\<lparr> tournament_players :=
                              filter (\<lambda>r. tp_tournament_id r \<noteq> tid) (tournament_players s) \<rparr>;
                     shuffledTeams = take (length (onlyPlayers s)) (shuffle rnd (tournamentTeams s));
                     rows = map (\<lambda>(p, t). \<lparr> tp_tournament_id = tid,
                                            tp_player_email = p_email p,
                                            tp_team_id = tt_team_id t \<rparr>)
                              (zip (take (length shuffledTeams) (onlyPlayers s)) shuffledTeams)
                 in case insErr of
                      Some msg \<Rightarrow> s\<lparr> tpMsg := Some (DrawInsertFailed msg), drawing := False \<rparr>
                    | None \<Rightarrow> s\<lparr> tournament_players := tournament_players s @ rows,
                                  tpMsg := Some DrawDone, drawing := False \<rparr>)))"

text \<open>The assignments of one tournament in the table.\<close>

definition assignments :: "string \<Rightarrow> dashboard \<Rightarrow> TournamentPlayerRow list" where
  "assignments tid s = filter (\<lambda>r. tp_tournament_id r = tid) (tournament_players s)"

text \<open>
  A small dashboard for the worked examples: an administrator, tournament \<open>t1\<close>, the
  roster of one administrator and two players, three teams in the pool, the gate open
  and one stale assignment in the table.
\<close>

definition small_dashboard :: dashboard where
  "small_dashboard =
     \<lparr> role = Some ''admin'', activeTournamentId = Some ''t1'', rosterLocked = False,
       players = [\<lparr> p_email = ''ana@x'', p_name = Some ''Ana'', p_role = ''player'' \<rparr>,
                  \<lparr> p_email = ''boss@x'', p_name = None, p_role = ''admin'' \<rparr>,
                  \<lparr> p_email = ''bob@x'', p_name = Some ''Bob'', p_role = ''player'' \<rparr>],
       tournamentTeams = [\<lparr> tt_tournament_id = ''t1'', tt_team_id = ''A'' \<rparr>,
                          \<lparr> tt_tournament_id = ''t1'', tt_team_id = ''B'' \<rparr>,
                          \<lparr> tt_tournament_id = ''t1'', tt_team_id = ''C'' \<rparr>],
       inviteMsg = None, tpMsg = None, mMsg = None, drawing = False,
       editingMatchId = None, editHomeGoals = [], editAwayGoals = [], savingMatchId = None,
       localStorage = Map.empty,
       tournament_players = [\<lparr> tp_tournament_id = ''t1'', tp_player_email = ''old@x'',
                                tp_team_id = ''C'' \<rparr>] \<rparr>"

text \<open>A random source for the examples: every call of \<open>Math.random\<close> returns one half.\<close>

definition always_half :: "nat \<Rightarrow> rat" where
  "always_half k = 1 / 2"


section \<open>ResultRecorder: \<open>clampInt\<close> and \<open>saveMatchResult\<close>\<close>

text \<open>
  A JavaScript number, as far as these functions can tell numbers apart: not-a-number, a
  finite value, or an infinity.
\<close>

datatype jsnum = NaN | Fin rat | PosInf | NegInf

definition digits :: string where
  "digits = ''0123456789''"

definition is_digit :: "char \<Rightarrow> bool" where
  "is_digit c = (c \<in> set digits)"

definition digit_val :: "char \<Rightarrow> nat" where
  "digit_val c = pos c digits"

definition all_digits :: "string \<Rightarrow> bool" where
  "all_digits s = (s \<noteq> [] \<and> list_all is_digit s)"

definition digits_value :: "string \<Rightarrow> nat" where
  "digits_value s = foldl (\<lambda>acc c. 10 * acc + digit_val c) 0 s"

text \<open>An optionally signed run of decimal digits, and the integer it denotes.\<close>

definition int_literal :: "string \<Rightarrow> int option" where
  "int_literal t =
     (case t of
        [] \<Rightarrow> None
      | c # ds \<Rightarrow>
          if c = CHR ''-'' \<and> all_digits ds then Some (- int (digits_value ds))
          else if c = CHR ''+'' \<and> all_digits ds then Some (int (digits_value ds))
          else if all_digits t then Some (int (digits_value t))
          else None)"

text \<open>
  \<open>Number(v)\<close> for a string. The built-in is known here on the strings this program
  produces and the examples use: white space only gives 0, and an optionally signed
  decimal integer of magnitude at most \<open>2^53\<close> gives that integer exactly. On every
  other string (fractions, exponents, hexadecimal, \<open>Infinity\<close>, larger integers that a
  double rounds, and everything that is not a number) the value is left to the parameter
  \<open>ext\<close>, applied to the trimmed string; the theorems hold for every \<open>ext\<close>.
\<close>

definition js_Number :: "(string \<Rightarrow> jsnum) \<Rightarrow> string \<Rightarrow> jsnum" where
  "js_Number ext v =
     (let t = trim v in
      if t = [] then Fin 0
      else case int_literal t of
             Some z \<Rightarrow> if \<bar>z\<bar> \<le> 2 ^ 53 then Fin (of_int z) else ext t
           | None \<Rightarrow> ext t)"

text \<open>\<open>String(c)\<close> for an integer \<open>c\<close>.\<close>

function string_of_nat :: "nat \<Rightarrow> string" where
  "string_of_nat n =
     (if n < 10 then [digits ! n] else string_of_nat (n div 10) @ [digits ! (n mod 10)])"
  by pat_completeness auto
termination
  by (relation "measure id") auto

declare string_of_nat.simps [simp del]

definition js_String :: "int \<Rightarrow> string" where
  "js_String c = (if c < 0 then CHR ''-'' # string_of_nat (nat (- c)) else string_of_nat (nat c))"

text \<open>\<open>Math.trunc\<close> of a finite number: the integer part, towards zero.\<close>

definition js_trunc :: "rat \<Rightarrow> int" where
  "js_trunc x = (if 0 \<le> x then \<lfloor>x\<rfloor> else \<lceil>x\<rceil>)"

text \<open>
  \<open>clampInt(v, min, max)\<close>, with integer bounds as at both call sites (0 and 99):
  \<open>Math.max(min, Math.min(max, Math.trunc(n)))\<close> is an integer also when \<open>n\<close> is an
  infinity.
\<close>

definition clampInt :: "(string \<Rightarrow> jsnum) \<Rightarrow> string \<Rightarrow> int \<Rightarrow> int \<Rightarrow> string" where
  "clampInt ext v lo hi =
     (case js_Number ext v of
        NaN \<Rightarrow> []
      | Fin x \<Rightarrow> js_String (max lo (min hi (js_trunc x)))
      | PosInf \<Rightarrow> js_String (max lo hi)
      | NegInf \<Rightarrow> js_String lo)"

text \<open>The two \<open>onChange\<close> handlers of the score inputs.\<close>

definition onChangeHomeGoals :: "(string \<Rightarrow> jsnum) \<Rightarrow> string \<Rightarrow> dashboard \<Rightarrow> dashboard" where
  "onChangeHomeGoals ext v s = s\<lparr> editHomeGoals := clampInt ext v 0 99 \<rparr>"

definition onChangeAwayGoals :: "(string \<Rightarrow> jsnum) \<Rightarrow> string \<Rightarrow> dashboard \<Rightarrow> dashboard" where
  "onChangeAwayGoals ext v s = s\<lparr> editAwayGoals := clampInt ext v 0 99 \<rparr>"

text \<open>
  The update \<open>saveMatchResult\<close> sends to the \<open>matches\<close> table:
  \<open>update({player1_score, player2_score, played_at}).eq("id", matchId)\<close>.
\<close>

record match_update =
  u_id :: string
  u_player1_score :: jsnum
  u_player2_score :: jsnum
  u_played_at :: string

text \<open>
  \<open>saveMatchResult(matchId)\<close>. \<open>now\<close> is \<open>new Date().toISOString()\<close>, \<open>dbErr\<close> the
  error object of the update (\<open>None\<close> on success). The result is the new component state
  and the update the store applied, if any: \<open>None\<close> means the match record is as it
  was. The reload of the matches after a success is a read and is left out.
\<close>

definition saveMatchResult ::
  "(string \<Rightarrow> jsnum) \<Rightarrow> string \<Rightarrow> string option \<Rightarrow> string \<Rightarrow> dashboard
     \<Rightarrow> dashboard \<times> match_update option" where
  "saveMatchResult ext now dbErr matchId s =
     (if \<not> isAdmin (role s) then (s, None)
      else if \<not> truthy (activeTournamentId s) then (s, None)
      else
        (let hg = (if trim (editHomeGoals s) = [] then None
                   else Some (js_Number ext (editHomeGoals s)));
             ag = (if trim (editAwayGoals s) = [] then None
                   else Some (js_Number ext (editAwayGoals s)))
         in if hg = None \<or> ag = None \<or> hg = Some NaN \<or> ag = Some NaN
              then (s\<lparr> mMsg := Some InvalidScore \<rparr>, None)
            else
              (let s = s\<lparr> savingMatchId := Some matchId, mMsg := None \<rparr>
               in case dbErr of
                    Some msg \<Rightarrow> (s\<lparr> mMsg := Some (SaveResultFailed msg), savingMatchId := None \<rparr>,
                                 None)
                  | None \<Rightarrow>
                      (s\<lparr> editingMatchId := None, editHomeGoals := [], editAwayGoals := [],
                          savingMatchId := None \<rparr>,
                       Some \<lparr> u_id = matchId, u_player1_score = the hg,
                              u_player2_score = the ag, u_played_at = now \<rparr>))))"

text \<open>For the examples: a \<open>Number\<close> that is not-a-number outside the known strings.\<close>

definition nan_elsewhere :: "string \<Rightarrow> jsnum" where
  "nan_elsewhere t = NaN"


section \<open>RoundRobinGenerator: the schedule built by \<open>generateSchedule\<close>\<close>

text \<open>
  The rows pushed for the \<open>matches\<close> table: tournament, round, home and away team. The
  team columns are typed \<open>string | null\<close> in the source but only ever hold team ids.
\<close>

record schedule_row =
  sr_tournament_id :: string
  sr_round :: nat
  sr_home_team_id :: string
  sr_away_team_id :: string

definition BYE :: string where
  "BYE = ''__BYE__''"

text \<open>
  The inner loop \<open>for (let i = 0; i < half; i++)\<close>: the rows it pushes, in order. A
  pair with the bye marker on either side is skipped by \<open>continue\<close>.
\<close>

function pair_loop :: "string \<Rightarrow> nat \<Rightarrow> nat \<Rightarrow> nat \<Rightarrow> string list \<Rightarrow> nat \<Rightarrow> schedule_row list" where
  "pair_loop tid n half r arr i =
     (if i < half then
        (let t1 = arr ! i;
             t2 = arr ! (n - 1 - i)
         in if t1 = BYE \<or> t2 = BYE then pair_loop tid n half r arr (Suc i)
            else
              (let home = (if r mod 2 = 1 then t1 else t2);
                   away = (if r mod 2 = 1 then t2 else t1)
               in \<lparr> sr_tournament_id = tid, sr_round = r,
                     sr_home_team_id = home, sr_away_team_id = away \<rparr>
                  # pair_loop tid n half r arr (Suc i)))
      else [])"
  by pat_completeness auto
termination
  by (relation "measure (\<lambda>(tid, n, half, r, arr, i). half - i)") auto

declare pair_loop.simps [simp del]

text \<open>
  The end of a round: \<open>fixed = arr[0]\<close>, \<open>rest = arr.slice(1)\<close>,
  \<open>rest.unshift(rest.pop())\<close>, \<open>arr = [fixed, ...rest]\<close>. The array has at least two
  elements whenever this runs, so \<open>arr[0]\<close> and \<open>rest.pop()\<close> exist.
\<close>

definition next_round_arr :: "string list \<Rightarrow> string list" where
  "next_round_arr arr =
     (let fixed = hd arr;
          rest = tl arr
      in fixed # (last rest # butlast rest))"

text \<open>The outer loop \<open>for (let r = 1; r <= rounds; r++)\<close>.\<close>

function round_loop :: "string \<Rightarrow> nat \<Rightarrow> nat \<Rightarrow> nat \<Rightarrow> nat \<Rightarrow> string list \<Rightarrow> schedule_row list" where
  "round_loop tid n rounds half r arr =
     (if r \<le> rounds then
        pair_loop tid n half r arr 0 @ round_loop tid n rounds half (Suc r) (next_round_arr arr)
      else [])"
  by pat_completeness auto
termination
  by (relation "measure (\<lambda>(tid, n, rounds, half, r, arr). Suc rounds - r)") auto

declare round_loop.simps [simp del]

text \<open>
  The schedule from the bye insertion to the optional second leg (lines 1497 to 1546 of
  the dashboard), for the team ids \<open>teamIds\<close> and the flag \<open>doubleRoundRobin\<close>. After
  the bye insertion \<open>n\<close> is even, so \<open>n / 2\<close> is the integer \<open>n div 2\<close>. The caller has
  checked that there are at least two team ids.
\<close>

definition schedule_rows :: "string \<Rightarrow> string list \<Rightarrow> bool \<Rightarrow> schedule_row list" where
  "schedule_rows tid teamIds doubleRoundRobin =
     (let isOdd = (length teamIds mod 2 = 1);
          teamIds = (if isOdd then teamIds @ [BYE] else teamIds);
          n = length teamIds;
          rounds = n - 1;
          half = n div 2;
          arr = teamIds;
          rows = round_loop tid n rounds half 1 arr
      in if doubleRoundRobin then
           (let offset = rounds;
                secondLeg = map (\<lambda>m. \<lparr> sr_tournament_id = sr_tournament_id m,
                                        sr_round = sr_round m + offset,
                                        sr_home_team_id = sr_away_team_id m,
                                        sr_away_team_id = sr_home_team_id m \<rparr>) rows
            in rows @ secondLeg)
         else rows)"

subsection \<open>The circle method in the words of the specification\<close>

text \<open>
  The working list (one bye appended when the number of teams is odd) and its size
  \<open>N'\<close>; the array of round \<open>r\<close>, which is the working list after \<open>r - 1\<close> rotations;
  and the fixtures of a round: position \<open>i\<close> is paired with position \<open>N' - 1 - i\<close> for
  \<open>i\<close> below \<open>N' / 2\<close>, pairs with the bye are dropped, and the first-named team is at
  home in odd rounds.
\<close>

definition working_list :: "string list \<Rightarrow> string list" where
  "working_list ts = (if odd (length ts) then ts @ [BYE] else ts)"

definition arr_of_round :: "string list \<Rightarrow> nat \<Rightarrow> string list" where
  "arr_of_round ts r = (next_round_arr ^^ (r - 1)) (working_list ts)"

definition paired_positions :: "string list \<Rightarrow> (string \<times> string) list" where
  "paired_positions arr =
     map (\<lambda>i. (arr ! i, arr ! (length arr - 1 - i))) [0..<length arr div 2]"

definition fixture_of :: "string \<Rightarrow> nat \<Rightarrow> string \<times> string \<Rightarrow> schedule_row" where
  "fixture_of tid r p =
     (if odd r
      then \<lparr> sr_tournament_id = tid, sr_round = r,
             sr_home_team_id = fst p, sr_away_team_id = snd p \<rparr>
      else \<lparr> sr_tournament_id = tid, sr_round = r,
             sr_home_team_id = snd p, sr_away_team_id = fst p \<rparr>)"

definition fixtures_of_round :: "string \<Rightarrow> string list \<Rightarrow> nat \<Rightarrow> schedule_row list" where
  "fixtures_of_round tid ts r =
     map (fixture_of tid r)
       (filter (\<lambda>p. fst p \<noteq> BYE \<and> snd p \<noteq> BYE) (paired_positions (arr_of_round ts r)))"

definition mirrored :: "nat \<Rightarrow> schedule_row \<Rightarrow> schedule_row" where
  "mirrored offset m =
     \<lparr> sr_tournament_id = sr_tournament_id m, sr_round = sr_round m + offset,
       sr_home_team_id = sr_away_team_id m, sr_away_team_id = sr_home_team_id m \<rparr>"

text \<open>The two teams of a fixture, as an unordered pair.\<close>

definition sides :: "schedule_row \<Rightarrow> string set" where
  "sides m = {sr_home_team_id m, sr_away_team_id m}"

text \<open>
  The position in the working list of the element that stands at position \<open>j\<close> of the
  array after \<open>k\<close> rotations, for a working list of \<open>m + 1\<close> elements.
\<close>

definition origin :: "nat \<Rightarrow> nat \<Rightarrow> nat \<Rightarrow> nat" where
  "origin m k j = (if j = 0 then 0 else Suc ((k * (m - 1) + (j - 1)) mod m))"

text \<open>
  The two elements of the working list \<open>w\<close> (of \<open>m + 1\<close> elements) that meet at slot
  \<open>i\<close> after \<open>k\<close> rotations, as an unordered pair, and all meetings of the \<open>m\<close> rounds.
\<close>

definition meeting :: "string list \<Rightarrow> nat \<Rightarrow> nat \<Rightarrow> nat \<Rightarrow> string set" where
  "meeting w m k i = {w ! origin m k i, w ! origin m k (m - i)}"

definition all_meetings :: "string list \<Rightarrow> nat \<Rightarrow> string set list" where
  "all_meetings w m = concat (map (\<lambda>k. map (meeting w m k) [0..<Suc m div 2]) [0..<m])"


section \<open>Properties of the helpers\<close>

lemma length_uniq_eq_iff: "length (uniq xs) = length xs \<longleftrightarrow> distinct xs"
  using length_remdups_eq [of "rev xs"] remdups_id_iff_distinct [of "rev xs"]
  by (simp add: uniq_def)

lemma trim_Nil [simp]: "trim [] = []"
  by (simp add: trim_def)


section \<open>Properties of the fixture builder\<close>






lemma distinct_used_home: "distinct (used cs) \<Longrightarrow> distinct (map d_home_team_id cs)"
  by (induction cs) (auto simp: used_def)

lemma length_filter_key_one:
  "distinct (map k xs) \<Longrightarrow> x \<in> set xs \<Longrightarrow> P x \<Longrightarrow>
     length (filter (\<lambda>y. k y = k x \<and> P y) xs) = 1"
proof (induction xs)
  case Nil
  then show ?case by simp
next
  case (Cons a xs)
  show ?case
  proof (cases "a = x")
    case True
    with Cons.prems have "k x \<notin> k ` set xs" by simp
    then have "\<forall>y \<in> set xs. k y \<noteq> k x" by (metis imageI)
    then have "filter (\<lambda>y. k y = k x \<and> P y) xs = []" by (simp add: filter_empty_conv)
    with True Cons.prems show ?thesis by simp
  next
    case False
    with Cons.prems have "x \<in> set xs" "k a \<noteq> k x" by auto
    with Cons show ?thesis by simp
  qed
qed

lemma save_success_iff:
  "saveRound1AndGenerateRound2 delErr insErr fixtures tid drafts = (Inr True, fixtures') \<longleftrightarrow>
     validate (cleaned drafts) = None \<and> distinct (used (cleaned drafts))
     \<and> delErr = None \<and> insErr = None
     \<and> fixtures' = filter (\<lambda>f. f_tournament_id f \<noteq> tid) fixtures
          @ round1Rows tid (cleaned drafts) @ round2Rows tid (cleaned drafts)"
  by (auto simp: saveRound1AndGenerateRound2_def Let_def length_uniq_eq_iff
           split: option.splits)



text \<open>
  When a list has more than one defect, the error is that of the first offending draft in
  list order: here match 1 pairs a team with itself and match 2 lacks its home team, and
  the self-pairing of match 1 is reported.
\<close>

lemma first_offending_draft_decides:
  "fst (saveRound1AndGenerateRound2 None None [] ''t''
          [\<lparr> d_match_number = 1, d_home_team_id = ''A'', d_away_team_id = ''A'' \<rparr>,
           \<lparr> d_match_number = 2, d_home_team_id = [], d_away_team_id = ''B'' \<rparr>])
   = Inl (SelfPairing 1)"
  by code_simp

lemma filter_round_rows:
  "filter (\<lambda>g. f_tournament_id g = tid \<and> f_round_number g = 1) (round1Rows tid cs) = round1Rows tid cs"
  "filter (\<lambda>g. f_tournament_id g = tid \<and> f_round_number g = 1) (round2Rows tid cs) = []"
  "filter (\<lambda>g. f_tournament_id g = tid \<and> f_round_number g = 2) (round1Rows tid cs) = []"
  "filter (\<lambda>g. f_tournament_id g = tid \<and> f_round_number g = 2) (round2Rows tid cs) = round2Rows tid cs"
  by (simp_all add: round1Rows_def round2Rows_def filter_map o_def)

lemma round2_count:
  assumes "distinct (used cs)" and "d \<in> set cs"
  shows "length (filter (\<lambda>g. f_match_number g = d_match_number d
                            \<and> f_home_team_id g = d_away_team_id d
                            \<and> f_away_team_id g = d_home_team_id d) (round2Rows tid cs)) = 1"
proof -
  have "length (filter (\<lambda>y. d_home_team_id y = d_home_team_id d
            \<and> (d_match_number y = d_match_number d \<and> d_away_team_id y = d_away_team_id d)) cs) = 1"
    using assms by (intro length_filter_key_one distinct_used_home) auto
  then show ?thesis
    by (simp add: round2Rows_def filter_map o_def conj_ac)
qed

text \<open>
  C6. When the function accepts a draft list (it returns \<open>true\<close>), the rows of the
  tournament in the table are, for round 1, the trimmed drafts tagged \<open>manual\<close> and, for
  round 2, the rows tagged \<open>auto_reverse\<close>; and for every round-1 row with match number
  \<open>m\<close>, home \<open>A\<close> and away \<open>B\<close> exactly one round-2 row has match number \<open>m\<close>,
  home \<open>B\<close> and away \<open>A\<close>.
\<close>

theorem round2_mirrors_round1:
  assumes "saveRound1AndGenerateRound2 delErr insErr fixtures tid drafts = (Inr True, fixtures')"
  shows "filter (\<lambda>g. f_tournament_id g = tid \<and> f_round_number g = 1) fixtures'
           = round1Rows tid (cleaned drafts)
       \<and> filter (\<lambda>g. f_tournament_id g = tid \<and> f_round_number g = 2) fixtures'
           = round2Rows tid (cleaned drafts)
       \<and> (\<forall>f \<in> set (round1Rows tid (cleaned drafts)). f_source f = manual)
       \<and> (\<forall>g \<in> set (round2Rows tid (cleaned drafts)). f_source g = auto_reverse)
       \<and> (\<forall>f \<in> set (round1Rows tid (cleaned drafts)).
             length (filter (\<lambda>g. f_match_number g = f_match_number f
                                 \<and> f_home_team_id g = f_away_team_id f
                                 \<and> f_away_team_id g = f_home_team_id f)
                       (round2Rows tid (cleaned drafts))) = 1)"
proof -
  from assms have ok: "distinct (used (cleaned drafts))"
    and eq: "fixtures' = filter (\<lambda>f. f_tournament_id f \<noteq> tid) fixtures
          @ round1Rows tid (cleaned drafts) @ round2Rows tid (cleaned drafts)"
    by (simp_all add: save_success_iff)
  have old: "\<And>n. filter (\<lambda>g. f_tournament_id g = tid \<and> f_round_number g = n)
               (filter (\<lambda>f. f_tournament_id f \<noteq> tid) fixtures) = []"
    by (simp add: filter_empty_conv)
  have r1: "filter (\<lambda>g. f_tournament_id g = tid \<and> f_round_number g = 1) fixtures'
           = round1Rows tid (cleaned drafts)"
    unfolding eq filter_append old by (simp only: filter_round_rows append_Nil append_Nil2)
  have r2: "filter (\<lambda>g. f_tournament_id g = tid \<and> f_round_number g = 2) fixtures'
           = round2Rows tid (cleaned drafts)"
    unfolding eq filter_append old by (simp only: filter_round_rows append_Nil append_Nil2)
  have s1: "\<forall>f \<in> set (round1Rows tid (cleaned drafts)). f_source f = manual"
    by (auto simp: round1Rows_def)
  have s2: "\<forall>g \<in> set (round2Rows tid (cleaned drafts)). f_source g = auto_reverse"
    by (auto simp: round2Rows_def)
  have m: "\<forall>f \<in> set (round1Rows tid (cleaned drafts)).
             length (filter (\<lambda>g. f_match_number g = f_match_number f
                                 \<and> f_home_team_id g = f_away_team_id f
                                 \<and> f_away_team_id g = f_home_team_id f)
                       (round2Rows tid (cleaned drafts))) = 1"
  proof
    fix f assume "f \<in> set (round1Rows tid (cleaned drafts))"
    then obtain d where d: "d \<in> set (cleaned drafts)"
      and f: "f_match_number f = d_match_number d" "f_home_team_id f = d_home_team_id d"
             "f_away_team_id f = d_away_team_id d"
      by (auto simp: round1Rows_def)
    show "length (filter (\<lambda>g. f_match_number g = f_match_number f
                                 \<and> f_home_team_id g = f_away_team_id f
                                 \<and> f_away_team_id g = f_home_team_id f)
                       (round2Rows tid (cleaned drafts))) = 1"
      unfolding f by (rule round2_count [OF ok d])
  qed
  from r1 r2 s1 s2 m show ?thesis by blast
qed


lemma trim_single [simp]: "\<not> is_ws c \<Longrightarrow> trim [c] = [c]"
  by (simp add: trim_def)

theorem round2_mirrors_round1_witness:
  "saveRound1AndGenerateRound2 None None [] ''t''
     [\<lparr> d_match_number = 1, d_home_team_id = ''A'', d_away_team_id = ''B'' \<rparr>,
      \<lparr> d_match_number = 2, d_home_team_id = ''C'', d_away_team_id = ''D'' \<rparr>]
   = (Inr True,
      [\<lparr> f_tournament_id = ''t'', f_round_number = 1, f_match_number = 1,
         f_home_team_id = ''A'', f_away_team_id = ''B'', f_is_bye = False, f_source = manual \<rparr>,
       \<lparr> f_tournament_id = ''t'', f_round_number = 1, f_match_number = 2,
         f_home_team_id = ''C'', f_away_team_id = ''D'', f_is_bye = False, f_source = manual \<rparr>,
       \<lparr> f_tournament_id = ''t'', f_round_number = 2, f_match_number = 1,
         f_home_team_id = ''B'', f_away_team_id = ''A'', f_is_bye = False,
         f_source = auto_reverse \<rparr>,
       \<lparr> f_tournament_id = ''t'', f_round_number = 2, f_match_number = 2,
         f_home_team_id = ''D'', f_away_team_id = ''C'', f_is_bye = False,
         f_source = auto_reverse \<rparr>])
   \<and> length (filter (\<lambda>g. f_match_number g = 1 \<and> f_home_team_id g = ''B''
                          \<and> f_away_team_id g = ''A'')
        (round2Rows ''t'' (cleaned
          [\<lparr> d_match_number = 1, d_home_team_id = ''A'', d_away_team_id = ''B'' \<rparr>,
           \<lparr> d_match_number = 2, d_home_team_id = ''C'', d_away_team_id = ''D'' \<rparr>]))) = 1"
proof -
  let ?ds = "[\<lparr> d_match_number = 1, d_home_team_id = ''A'', d_away_team_id = ''B'' \<rparr>,
              \<lparr> d_match_number = 2, d_home_team_id = ''C'', d_away_team_id = ''D'' \<rparr>]"
  let ?out = "[\<lparr> f_tournament_id = ''t'', f_round_number = 1, f_match_number = 1,
         f_home_team_id = ''A'', f_away_team_id = ''B'', f_is_bye = False, f_source = manual \<rparr>,
       \<lparr> f_tournament_id = ''t'', f_round_number = 1, f_match_number = 2,
         f_home_team_id = ''C'', f_away_team_id = ''D'', f_is_bye = False, f_source = manual \<rparr>,
       \<lparr> f_tournament_id = ''t'', f_round_number = 2, f_match_number = 1,
         f_home_team_id = ''B'', f_away_team_id = ''A'', f_is_bye = False,
         f_source = auto_reverse \<rparr>,
       \<lparr> f_tournament_id = ''t'', f_round_number = 2, f_match_number = 2,
         f_home_team_id = ''D'', f_away_team_id = ''C'', f_is_bye = False,
         f_source = auto_reverse \<rparr>]"
  have h: "saveRound1AndGenerateRound2 None None [] ''t'' ?ds = (Inr True, ?out)"
    by (simp add: saveRound1AndGenerateRound2_def cleaned_def used_def uniq_def is_ws_def
                  round1Rows_def round2Rows_def)
  let ?f = "\<lparr> f_tournament_id = ''t'', f_round_number = 1, f_match_number = 1,
         f_home_team_id = ''A'', f_away_team_id = ''B'', f_is_bye = False, f_source = manual \<rparr>"
  have mem: "?f \<in> set (round1Rows ''t'' (cleaned ?ds))"
    by (simp add: round1Rows_def cleaned_def is_ws_def)
  from round2_mirrors_round1 [OF h] have
    "\<forall>f \<in> set (round1Rows ''t'' (cleaned ?ds)).
       length (filter (\<lambda>g. f_match_number g = f_match_number f
                           \<and> f_home_team_id g = f_away_team_id f
                           \<and> f_away_team_id g = f_home_team_id f)
                 (round2Rows ''t'' (cleaned ?ds))) = 1"
    by blast
  from bspec [OF this mem] h show ?thesis by simp
qed


section \<open>Properties of the standings computation\<close>


lemma map_set_fresh: "k \<notin> fst ` set mp \<Longrightarrow> map_set k v mp = mp @ [(k, v)]"
  by (induction mp) auto

lemma seed_loop_fresh:
  "distinct ids \<Longrightarrow> set ids \<inter> fst ` set mp = {} \<Longrightarrow>
     seed_loop byId ids mp = mp @ map (\<lambda>k. (k, zero_row byId k)) ids"
proof (induction ids arbitrary: mp)
  case Nil
  then show ?case by simp
next
  case (Cons k ids)
  from Cons.prems have fresh: "k \<notin> fst ` set mp" by auto
  have "set ids \<inter> fst ` set (mp @ [(k, zero_row byId k)]) = {}"
    using Cons.prems by auto
  with Cons.IH [of "mp @ [(k, zero_row byId k)]"] Cons.prems fresh
  show ?case by (simp add: map_set_fresh)
qed

lemma distinct_uniq [simp]: "distinct (uniq xs)"
  by (simp add: uniq_def)

lemma set_uniq [simp]: "set (uniq xs) = set xs"
  by (simp add: uniq_def)

lemma seed_table:
  "seed_loop byId (uniq ids) [] = map (\<lambda>k. (k, zero_row byId k)) (uniq ids)"
  using seed_loop_fresh [of "uniq ids" "[]" byId] by simp

lemma modify_table:
  "modify k f (map (\<lambda>t. (t, R t)) pool) = map (\<lambda>t. (t, step k f t (R t))) pool"
  by (simp add: modify_def step_def)

lemma map_of_table:
  "map_of (map (\<lambda>t. (t, R t)) pool) k = (if k \<in> set pool then Some (R k) else None)"
  by (induction pool) auto

lemma tally_absent:
  "m_home_team_id m = Some h \<Longrightarrow> m_away_team_id m = Some a \<Longrightarrow>
     h \<notin> fst ` set mp \<or> a \<notin> fst ` set mp \<Longrightarrow> tally m mp = mp"
proof -
  assume m: "m_home_team_id m = Some h" "m_away_team_id m = Some a"
    and "h \<notin> fst ` set mp \<or> a \<notin> fst ` set mp"
  then have "map_of mp h = None \<or> map_of mp a = None"
    by (simp add: map_of_eq_None_iff)
  then show ?thesis
    by (auto simp: tally_def m split: option.splits)
qed

lemma tally_skip:
  assumes nc: "\<not> counted (map fst mp) m"
  shows "tally m mp = mp"
proof (cases "m_home_team_id m")
  case None
  then show ?thesis by (simp add: tally_def truthy_def)
next
  case h: (Some h)
  show ?thesis
  proof (cases "m_away_team_id m")
    case None
    then show ?thesis by (simp add: tally_def truthy_def)
  next
    case a: (Some a)
    show ?thesis
    proof (cases "h \<notin> fst ` set mp \<or> a \<notin> fst ` set mp")
      case True
      then show ?thesis by (rule tally_absent [OF h a])
    next
      case False
      with nc h a have "\<not> truthy (m_home_team_id m) \<or> \<not> truthy (m_away_team_id m)
          \<or> \<not> isPlayed m \<or> m_player1_score m = None \<or> m_player2_score m = None"
        by (auto simp: counted_def)
      then show ?thesis
        by (auto simp: tally_def split: option.splits)
    qed
  qed
qed

lemma chain_win:
  "f > a \<Longrightarrow>
   step h (\<lambda>r. r\<lparr>pts := pts r + 3\<rparr>) t
    (step aw (\<lambda>r. r\<lparr>losses := losses r + 1\<rparr>) t
      (step h (\<lambda>r. r\<lparr>wins := wins r + 1\<rparr>) t
        (step aw (\<lambda>r. r\<lparr>ga := ga r + f\<rparr>) t
          (step aw (\<lambda>r. r\<lparr>gf := gf r + a\<rparr>) t
            (step h (\<lambda>r. r\<lparr>ga := ga r + a\<rparr>) t
              (step h (\<lambda>r. r\<lparr>gf := gf r + f\<rparr>) t
                (step aw (\<lambda>r. r\<lparr>played := played r + 1\<rparr>) t
                  (step h (\<lambda>r. r\<lparr>played := played r + 1\<rparr>) t r))))))))
   = (let r = (if Some h = Some t then side f a r else r)
      in if Some aw = Some t then side a f r else r)"
  by (cases "t = h"; cases "t = aw") (simp_all add: step_def side_def)

lemma chain_loss:
  "f < a \<Longrightarrow>
   step aw (\<lambda>r. r\<lparr>pts := pts r + 3\<rparr>) t
    (step h (\<lambda>r. r\<lparr>losses := losses r + 1\<rparr>) t
      (step aw (\<lambda>r. r\<lparr>wins := wins r + 1\<rparr>) t
        (step aw (\<lambda>r. r\<lparr>ga := ga r + f\<rparr>) t
          (step aw (\<lambda>r. r\<lparr>gf := gf r + a\<rparr>) t
            (step h (\<lambda>r. r\<lparr>ga := ga r + a\<rparr>) t
              (step h (\<lambda>r. r\<lparr>gf := gf r + f\<rparr>) t
                (step aw (\<lambda>r. r\<lparr>played := played r + 1\<rparr>) t
                  (step h (\<lambda>r. r\<lparr>played := played r + 1\<rparr>) t r))))))))
   = (let r = (if Some h = Some t then side f a r else r)
      in if Some aw = Some t then side a f r else r)"
  by (cases "t = h"; cases "t = aw") (simp_all add: step_def side_def)

lemma chain_draw:
  "step aw (\<lambda>r. r\<lparr>pts := pts r + 1\<rparr>) t
    (step h (\<lambda>r. r\<lparr>pts := pts r + 1\<rparr>) t
      (step aw (\<lambda>r. r\<lparr>draws := draws r + 1\<rparr>) t
        (step h (\<lambda>r. r\<lparr>draws := draws r + 1\<rparr>) t
        (step aw (\<lambda>r. r\<lparr>ga := ga r + f\<rparr>) t
          (step aw (\<lambda>r. r\<lparr>gf := gf r + f\<rparr>) t
            (step h (\<lambda>r. r\<lparr>ga := ga r + f\<rparr>) t
              (step h (\<lambda>r. r\<lparr>gf := gf r + f\<rparr>) t
                (step aw (\<lambda>r. r\<lparr>played := played r + 1\<rparr>) t
                  (step h (\<lambda>r. r\<lparr>played := played r + 1\<rparr>) t r)))))))))
   = (let r = (if Some h = Some t then side f f r else r)
      in if Some aw = Some t then side f f r else r)"
  by (cases "t = h"; cases "t = aw") (simp_all add: step_def side_def)

lemma tally_table:
  "tally m (map (\<lambda>t. (t, R t)) pool) = map (\<lambda>t. (t, credit pool t m (R t))) pool"
proof (cases "counted pool m")
  case False
  then have "\<not> counted (map fst (map (\<lambda>t. (t, R t)) pool)) m" by (simp add: o_def)
  from tally_skip [OF this] False show ?thesis by (simp add: credit_def)
next
  case True
  then obtain h a s1 s2 where m: "m_home_team_id m = Some h" "m_away_team_id m = Some a"
      "m_player1_score m = Some s1" "m_player2_score m = Some s2"
    and nz: "h \<noteq> []" "a \<noteq> []" and pl: "isPlayed m" and mem: "h \<in> set pool" "a \<in> set pool"
    by (auto simp: counted_def truthy_def split: option.splits)
  have cr: "\<And>t r. credit pool t m r =
      (let r = (if Some h = Some t then side s1 s2 r else r)
       in if Some a = Some t then side s2 s1 r else r)"
    using True by (simp add: credit_def m)
  consider "s1 > s2" | "s1 < s2" | "s1 = s2" by linarith
  then show ?thesis
  proof cases
    case 1
    then show ?thesis
      unfolding cr
      by (simp add: tally_def m nz pl mem truthy_def map_of_table modify_table chain_win
               del: option.inject)
  next
    case 2
    then show ?thesis
      unfolding cr
      by (simp add: tally_def m nz pl mem truthy_def map_of_table modify_table chain_loss
               del: option.inject)
  next
    case 3
    note m3 = m(3) [unfolded 3] and cr3 = cr [unfolded 3]
    show ?thesis
      unfolding cr3
      by (simp add: tally_def m(1,2,4) m3 nz pl mem truthy_def map_of_table modify_table
                    chain_draw del: option.inject)
  qed
qed

lemma tally_loop_table:
  "tally_loop ms (map (\<lambda>t. (t, R t)) pool)
     = map (\<lambda>t. (t, foldl (\<lambda>r m. credit pool t m r) (R t) ms)) pool"
  by (induction ms arbitrary: R) (simp_all add: tally_table)


lemma games_Cons:
  "home_games pool (m # ms) t = home_games pool [m] t @ home_games pool ms t"
  "away_games pool (m # ms) t = away_games pool [m] t @ away_games pool ms t"
  by (simp_all add: home_games_def away_games_def)

lemma games_Nil [simp]: "home_games pool [] t = []" "away_games pool [] t = []"
  by (simp_all add: home_games_def away_games_def)

lemma credit_fields:
  fixes pool t m r
  defines "g \<equiv> home_games pool [m] t @ away_games pool [m] t"
  shows "team_id (credit pool t m r) = team_id r"
    and "team_name (credit pool t m r) = team_name r"
    and "played (credit pool t m r) = played r + int (length g)"
    and "wins (credit pool t m r) = wins r + int (length (filter (\<lambda>(f, a). f > a) g))"
    and "draws (credit pool t m r) = draws r + int (length (filter (\<lambda>(f, a). f = a) g))"
    and "losses (credit pool t m r) = losses r + int (length (filter (\<lambda>(f, a). f < a) g))"
    and "gf (credit pool t m r) = gf r + sum_list (map fst g)"
    and "ga (credit pool t m r) = ga r + sum_list (map snd g)"
    and "pts (credit pool t m r) = pts r + 3 * int (length (filter (\<lambda>(f, a). f > a) g))
                                       + int (length (filter (\<lambda>(f, a). f = a) g))"
  unfolding g_def
  by (simp_all add: credit_def side_def home_games_def away_games_def Let_def)

lemma fold_credit_fields:
  fixes pool t ms r
  defines "g \<equiv> home_games pool ms t @ away_games pool ms t"
    and "r' \<equiv> foldl (\<lambda>r m. credit pool t m r) r ms"
  shows "team_id r' = team_id r"
    and "team_name r' = team_name r"
    and "played r' = played r + int (length g)"
    and "wins r' = wins r + int (length (filter (\<lambda>(f, a). f > a) g))"
    and "draws r' = draws r + int (length (filter (\<lambda>(f, a). f = a) g))"
    and "losses r' = losses r + int (length (filter (\<lambda>(f, a). f < a) g))"
    and "gf r' = gf r + sum_list (map fst g)"
    and "ga r' = ga r + sum_list (map snd g)"
    and "pts r' = pts r + 3 * int (length (filter (\<lambda>(f, a). f > a) g))
                        + int (length (filter (\<lambda>(f, a). f = a) g))"
  unfolding g_def r'_def
  by (induction ms arbitrary: r;
      simp add: credit_fields home_games_def away_games_def del: games_Nil)+

lemma expected_row_fold:
  "expected_row byId pool ms t
     = (foldl (\<lambda>r m. credit pool t m r) (zero_row byId t) ms)
         \<lparr> gd := gf (foldl (\<lambda>r m. credit pool t m r) (zero_row byId t) ms)
                  - ga (foldl (\<lambda>r m. credit pool t m r) (zero_row byId t) ms) \<rparr>"
  by (rule StandingRow.equality)
     (simp_all add: expected_row_def Let_def fold_credit_fields zero_row_def)


lemma standings_closed_form:
  "standings teams tts ms =
     sort_cmp standings_cmp
       (map (expected_row (teamById teams) (uniq (map tt_team_id tts)) ms)
            (uniq (map tt_team_id tts)))"
proof -
  have "expected_row (teamById teams) (uniq (map tt_team_id tts)) ms
      = (\<lambda>t. (foldl (\<lambda>r m. credit (uniq (map tt_team_id tts)) t m r)
                      (zero_row (teamById teams) t) ms)
         \<lparr> gd := gf (foldl (\<lambda>r m. credit (uniq (map tt_team_id tts)) t m r)
                          (zero_row (teamById teams) t) ms)
                  - ga (foldl (\<lambda>r m. credit (uniq (map tt_team_id tts)) t m r)
                          (zero_row (teamById teams) t) ms) \<rparr>)"
    by (rule ext) (rule expected_row_fold)
  then show ?thesis
    by (simp add: standings_def Let_def seed_table tally_loop_table o_def)
qed

lemma set_insort_cmp [simp]: "set (insort_cmp c x ys) = insert x (set ys)"
  by (induction ys) auto

lemma mset_insort_cmp [simp]: "mset (insort_cmp c x ys) = add_mset x (mset ys)"
  by (induction ys) auto

lemma mset_sort_cmp [simp]: "mset (sort_cmp c xs) = mset xs"
  by (induction xs) auto

lemma set_sort_cmp [simp]: "set (sort_cmp c xs) = set xs"
  by (induction xs) auto

lemma length_sort_cmp [simp]: "length (sort_cmp c xs) = length xs"
  using mset_sort_cmp [of c xs] by (metis size_mset)

lemma insort_cmp_stable:
  assumes tr: "\<And>x y z. c x y \<le> 0 \<Longrightarrow> c y z \<le> 0 \<Longrightarrow> c x z \<le> 0"
    and asym: "\<And>x y. c x y > 0 \<Longrightarrow> c y x < 0"
    and srt: "sorted_wrt (\<lambda>a b. c a b < 0 \<or> (c a b = 0 \<and> R a b)) ys"
    and before: "\<forall>y \<in> set ys. R x y"
  shows "sorted_wrt (\<lambda>a b. c a b < 0 \<or> (c a b = 0 \<and> R a b)) (insort_cmp c x ys)"
  using srt before
proof (induction ys)
  case Nil
  then show ?case by simp
next
  case (Cons y ys)
  show ?case
  proof (cases "c x y \<le> 0")
    case True
    have "c x z < 0 \<or> (c x z = 0 \<and> R x z)" if "z \<in> set (y # ys)" for z
    proof -
      have "c y z \<le> 0" if "z \<in> set ys"
        using Cons.prems(1) that by force
      with True tr that have "c x z \<le> 0" by (cases "z = y") auto
      moreover have "R x z" using Cons.prems(2) that by blast
      ultimately show ?thesis by force
    qed
    with True Cons.prems(1) show ?thesis by simp
  next
    case False
    then have "c y x < 0" using asym [of x y] by simp
    moreover have "sorted_wrt (\<lambda>a b. c a b < 0 \<or> (c a b = 0 \<and> R a b)) (insort_cmp c x ys)"
      using Cons by simp
    ultimately show ?thesis using False Cons.prems(1) by auto
  qed
qed

lemma sort_cmp_stable:
  assumes tr: "\<And>x y z. c x y \<le> 0 \<Longrightarrow> c y z \<le> 0 \<Longrightarrow> c x z \<le> 0"
    and asym: "\<And>x y. c x y > 0 \<Longrightarrow> c y x < 0"
    and srt: "sorted_wrt R xs"
  shows "sorted_wrt (\<lambda>a b. c a b < 0 \<or> (c a b = 0 \<and> R a b)) (sort_cmp c xs)"
  using srt
proof (induction xs)
  case Nil
  then show ?case by simp
next
  case (Cons x xs)
  then have "sorted_wrt (\<lambda>a b. c a b < 0 \<or> (c a b = 0 \<and> R a b)) (sort_cmp c xs)"
    and "\<forall>y \<in> set (sort_cmp c xs). R x y"
    by simp_all
  then show ?case
    using insort_cmp_stable [of c R "sort_cmp c xs" x] tr asym by simp
qed

lemma standings_cmp_le:
  "standings_cmp a b \<le> 0 \<longleftrightarrow>
     pts a > pts b \<or> (pts a = pts b \<and> (gd a > gd b \<or> (gd a = gd b \<and> gf a \<ge> gf b)))"
  by (auto simp: standings_cmp_def)

lemma standings_cmp_less:
  "standings_cmp a b < 0 \<longleftrightarrow>
     pts a > pts b \<or> (pts a = pts b \<and> (gd a > gd b \<or> (gd a = gd b \<and> gf a > gf b)))"
  by (auto simp: standings_cmp_def)

lemma standings_cmp_eq:
  "standings_cmp a b = 0 \<longleftrightarrow> pts a = pts b \<and> gd a = gd b \<and> gf a = gf b"
  by (auto simp: standings_cmp_def)

lemma standings_cmp_trans:
  "standings_cmp x y \<le> 0 \<Longrightarrow> standings_cmp y z \<le> 0 \<Longrightarrow> standings_cmp x z \<le> 0"
  unfolding standings_cmp_le by linarith

lemma standings_cmp_asym: "standings_cmp x y > 0 \<Longrightarrow> standings_cmp y x < 0"
  by (auto simp: standings_cmp_def split: if_splits)




lemma remdups_snoc: "remdups (ys @ [x]) = removeAll x (remdups ys) @ [x]"
  by (induction ys) auto

lemma uniq_Cons: "uniq (x # xs) = x # removeAll x (uniq xs)"
  by (simp add: uniq_def remdups_snoc removeAll_filter_not_eq rev_filter)

lemma pos_less_length: "x \<in> set xs \<Longrightarrow> pos x xs < length xs"
  by (induction xs) auto

lemma uniq_sorted_by_pos: "sorted_wrt (\<lambda>a b. pos a xs < pos b xs) (uniq xs)"
proof (induction xs)
  case Nil
  then show ?case by (simp add: uniq_def)
next
  case (Cons x xs)
  have "sorted_wrt (\<lambda>a b. pos a xs < pos b xs) (removeAll x (uniq xs))"
    using Cons.IH by (simp add: removeAll_filter_not_eq sorted_wrt_filter)
  then have "sorted_wrt (\<lambda>a b. pos a (x # xs) < pos b (x # xs)) (removeAll x (uniq xs))"
    by (rule sorted_wrt_mono_rel [rotated]) auto
  then show ?case by (auto simp: uniq_Cons)
qed

lemma team_id_expected_row [simp]: "team_id (expected_row byId pool ms t) = t"
  by (simp add: expected_row_def Let_def)

lemma gd_expected_row: "gd (expected_row byId pool ms t)
   = gf (expected_row byId pool ms t) - ga (expected_row byId pool ms t)"
  by (simp add: expected_row_def Let_def)

lemma pts_expected_row: "pts (expected_row byId pool ms t)
   = 3 * wins (expected_row byId pool ms t) + draws (expected_row byId pool ms t)"
  by (simp add: expected_row_def Let_def)

text \<open>
  C3. The rows of the standings come sorted by points, then goal difference, then goals
  for, each descending, and nothing else: of any two rows, the earlier one is strictly
  better on that lexicographic chain, or the two agree on all three keys and the team of
  the earlier row comes first in the tournament's team pool (the sort is stable, and the
  rows enter it in pool order).
\<close>

theorem standings_sorted_stable:
  "sorted_wrt
     (\<lambda>a b. (pts a > pts b \<or> (pts a = pts b \<and> (gd a > gd b \<or> (gd a = gd b \<and> gf a > gf b))))
           \<or> (pts a = pts b \<and> gd a = gd b \<and> gf a = gf b
               \<and> pos (team_id a) (map tt_team_id tts)
                   < pos (team_id b) (map tt_team_id tts)))
     (standings teams tts matches)"
proof -
  let ?ids = "map tt_team_id tts"
  let ?list = "map (expected_row (teamById teams) (uniq ?ids) matches) (uniq ?ids)"
  have "sorted_wrt (\<lambda>a b. pos (team_id a) ?ids < pos (team_id b) ?ids) ?list"
    using uniq_sorted_by_pos [of ?ids] by (simp add: sorted_wrt_map)
  then have "sorted_wrt (\<lambda>a b. standings_cmp a b < 0
        \<or> (standings_cmp a b = 0 \<and> pos (team_id a) ?ids < pos (team_id b) ?ids))
      (sort_cmp standings_cmp ?list)"
    using sort_cmp_stable [of standings_cmp
        "\<lambda>a b. pos (team_id a) ?ids < pos (team_id b) ?ids" ?list]
      standings_cmp_trans standings_cmp_asym
    by blast
  then show ?thesis
    by (simp add: standings_closed_form standings_cmp_less standings_cmp_eq)
qed


lemma map_team_id_standings:
  "mset (map team_id (standings teams tts ms)) = mset (uniq (map tt_team_id tts))"
proof -
  have "mset (map team_id (standings teams tts ms))
      = image_mset team_id (mset (standings teams tts ms))" by simp
  also have "\<dots> = image_mset team_id
      (mset (map (expected_row (teamById teams) (uniq (map tt_team_id tts)) ms)
                 (uniq (map tt_team_id tts))))"
    by (simp only: standings_closed_form mset_sort_cmp)
  also have "\<dots> = mset (uniq (map tt_team_id tts))"
    by (simp add: image_mset.compositionality o_def)
  finally show ?thesis .
qed

lemma not_counted_outside:
  "m_home_team_id m \<notin> Some ` set pool \<or> m_away_team_id m \<notin> Some ` set pool
     \<Longrightarrow> \<not> counted pool m"
  by (auto simp: counted_def truthy_def split: option.splits)

lemma games_skip:
  "\<not> counted pool m \<Longrightarrow> home_games pool (ms1 @ m # ms2) t = home_games pool (ms1 @ ms2) t"
  "\<not> counted pool m \<Longrightarrow> away_games pool (ms1 @ m # ms2) t = away_games pool (ms1 @ ms2) t"
  by (simp_all add: home_games_def away_games_def)

text \<open>
  C10. A match whose home or away team id is not the id of a team of the pool (a missing
  id included) is skipped as a whole: the standings with the match in the list are the
  standings without it, so neither side is credited with anything. The rows of the
  output are the teams of the pool, one row each; no row exists for any other team.
\<close>

theorem standings_skips_out_of_pool:
  assumes "m_home_team_id m \<notin> Some ` tt_team_id ` set tts
         \<or> m_away_team_id m \<notin> Some ` tt_team_id ` set tts"
  shows "standings teams tts (ms1 @ m # ms2) = standings teams tts (ms1 @ ms2)
       \<and> set (map team_id (standings teams tts (ms1 @ m # ms2)))
           = tt_team_id ` set tts
       \<and> distinct (map team_id (standings teams tts (ms1 @ m # ms2)))"
proof -
  let ?pool = "uniq (map tt_team_id tts)"
  from assms have "\<not> counted ?pool m"
    by (intro not_counted_outside) simp
  then have "expected_row (teamById teams) ?pool (ms1 @ m # ms2)
           = expected_row (teamById teams) ?pool (ms1 @ ms2)"
    by (intro ext) (simp add: expected_row_def games_skip)
  then have eq: "standings teams tts (ms1 @ m # ms2)
               = standings teams tts (ms1 @ ms2)"
    by (simp add: standings_closed_form)
  have ms: "mset (map team_id (standings teams tts (ms1 @ m # ms2))) = mset ?pool"
    by (rule map_team_id_standings)
  have "set (map team_id (standings teams tts (ms1 @ m # ms2))) = set ?pool"
    using ms by (rule mset_eq_setD)
  moreover have "distinct (map team_id (standings teams tts (ms1 @ m # ms2)))"
    using ms distinct_uniq by (metis mset_eq_imp_distinct_iff)
  ultimately show ?thesis using eq by simp
qed

text \<open>
  C2, as the code has it. For every team pool and match list the output holds one row per
  pool team, and the row of a team is \<open>expected_row\<close>: all zero when no counted match
  involves the team, and otherwise, over the counted matches (both team ids truthy and in
  the pool, \<open>played_at\<close> truthy, both scores set), one game played per side, the goals
  added symmetrically to goals-for and goals-against, a win and 3 points for the strictly
  higher scorer and a loss for the other, a draw and 1 point each on a tie. Every other
  match leaves the table alone. On every output row goal difference is goals-for minus
  goals-against, and points are 3 per win plus 1 per draw.
\<close>

theorem standings_counted_matches:
  "standings teams tts matches =
     sort_cmp standings_cmp
       (map (expected_row (teamById teams) (uniq (map tt_team_id tts)) matches)
            (uniq (map tt_team_id tts)))
   \<and> map gd (standings teams tts matches)
       = map (\<lambda>r. gf r - ga r) (standings teams tts matches)
   \<and> map pts (standings teams tts matches)
       = map (\<lambda>r. 3 * wins r + draws r) (standings teams tts matches)"
proof -
  let ?pool = "uniq (map tt_team_id tts)"
  let ?list = "map (expected_row (teamById teams) ?pool matches) ?pool"
  have "\<forall>r \<in> set (sort_cmp standings_cmp ?list). gd r = gf r - ga r \<and> pts r = 3 * wins r + draws r"
    by (auto simp: gd_expected_row pts_expected_row)
  then show ?thesis
    by (simp add: standings_closed_form)
qed


theorem standings_skips_out_of_pool_witness:
  "Some ''B'' \<notin> Some ` tt_team_id ` set [\<lparr> tt_tournament_id = ''t'', tt_team_id = ''A'' \<rparr>]
   \<and> standings [] [\<lparr> tt_tournament_id = ''t'', tt_team_id = ''A'' \<rparr>] [\<lparr> m_id = ''m1'', m_tournament_id = ''t'', m_round = Some 1,
          m_home_team_id = Some ''A'', m_away_team_id = Some ''B'',
          m_player1_email = None, m_player2_email = None,
          m_player1_score = Some 2, m_player2_score = Some 1,
          m_played_at = Some ''2024-01-01'' \<rparr>] = standings [] [\<lparr> tt_tournament_id = ''t'', tt_team_id = ''A'' \<rparr>] []
   \<and> map team_id (standings [] [\<lparr> tt_tournament_id = ''t'', tt_team_id = ''A'' \<rparr>] [\<lparr> m_id = ''m1'', m_tournament_id = ''t'', m_round = Some 1,
          m_home_team_id = Some ''A'', m_away_team_id = Some ''B'',
          m_player1_email = None, m_player2_email = None,
          m_player1_score = Some 2, m_player2_score = Some 1,
          m_played_at = Some ''2024-01-01'' \<rparr>]) = [''A'']"
proof -
  let ?m = "\<lparr> m_id = ''m1'', m_tournament_id = ''t'', m_round = Some 1,
          m_home_team_id = Some ''A'', m_away_team_id = Some ''B'',
          m_player1_email = None, m_player2_email = None,
          m_player1_score = Some 2, m_player2_score = Some 1,
          m_played_at = Some ''2024-01-01'' \<rparr>"
  let ?tts = "[\<lparr> tt_tournament_id = ''t'', tt_team_id = ''A'' \<rparr>]"
  have h: "m_home_team_id ?m \<notin> Some ` tt_team_id ` set ?tts
         \<or> m_away_team_id ?m \<notin> Some ` tt_team_id ` set ?tts"
    by simp
  have ids: "map team_id (standings [] ?tts [?m]) = [''A'']"
    by code_simp
  from standings_skips_out_of_pool [OF h, of "[]" "[]" "[]"] ids show ?thesis
    by simp
qed

text \<open>
  C2 as stated fails: a match with both team ids and both scores set, and played, whose
  away team is not in the pool, is not counted for the home team either. The pool is
  team A alone, the match is A against B, 2 to 1; A's row stays at zero games played.
\<close>

theorem standings_every_scored_match_counterexample:
  "m_home_team_id (\<lparr> m_id = ''m1'', m_tournament_id = ''t'', m_round = Some 1,
          m_home_team_id = Some ''A'', m_away_team_id = Some ''B'',
          m_player1_email = None, m_player2_email = None,
          m_player1_score = Some 2, m_player2_score = Some 1,
          m_played_at = Some ''2024-01-01'' \<rparr>) \<noteq> None
   \<and> m_away_team_id (\<lparr> m_id = ''m1'', m_tournament_id = ''t'', m_round = Some 1,
          m_home_team_id = Some ''A'', m_away_team_id = Some ''B'',
          m_player1_email = None, m_player2_email = None,
          m_player1_score = Some 2, m_player2_score = Some 1,
          m_played_at = Some ''2024-01-01'' \<rparr>) \<noteq> None
   \<and> m_player1_score (\<lparr> m_id = ''m1'', m_tournament_id = ''t'', m_round = Some 1,
          m_home_team_id = Some ''A'', m_away_team_id = Some ''B'',
          m_player1_email = None, m_player2_email = None,
          m_player1_score = Some 2, m_player2_score = Some 1,
          m_played_at = Some ''2024-01-01'' \<rparr>) \<noteq> None
   \<and> m_player2_score (\<lparr> m_id = ''m1'', m_tournament_id = ''t'', m_round = Some 1,
          m_home_team_id = Some ''A'', m_away_team_id = Some ''B'',
          m_player1_email = None, m_player2_email = None,
          m_player1_score = Some 2, m_player2_score = Some 1,
          m_played_at = Some ''2024-01-01'' \<rparr>) \<noteq> None
   \<and> map (\<lambda>r. (team_id r, played r, wins r, gf r, pts r)) (standings [] [\<lparr> tt_tournament_id = ''t'', tt_team_id = ''A'' \<rparr>] [\<lparr> m_id = ''m1'', m_tournament_id = ''t'', m_round = Some 1,
          m_home_team_id = Some ''A'', m_away_team_id = Some ''B'',
          m_player1_email = None, m_player2_email = None,
          m_player1_score = Some 2, m_player2_score = Some 1,
          m_played_at = Some ''2024-01-01'' \<rparr>])
       = [(''A'', 0, 0, 0, 0)]"
  by code_simp


text \<open>The scenario of the specification: A beats B 2 to 1, A and C draw 0 to 0, B against
  C is not played yet.\<close>

lemma standings_scenario:
  "map (\<lambda>r. (team_id r, played r, wins r, draws r, losses r, pts r, gd r))
     (standings []
        [\<lparr> tt_tournament_id = ''t'', tt_team_id = ''A'' \<rparr>,
         \<lparr> tt_tournament_id = ''t'', tt_team_id = ''B'' \<rparr>,
         \<lparr> tt_tournament_id = ''t'', tt_team_id = ''C'' \<rparr>]
        [\<lparr> m_id = ''m1'', m_tournament_id = ''t'', m_round = Some 1,
           m_home_team_id = Some ''A'', m_away_team_id = Some ''B'',
           m_player1_email = None, m_player2_email = None,
           m_player1_score = Some 2, m_player2_score = Some 1,
           m_played_at = Some ''2024-01-01'' \<rparr>,
         \<lparr> m_id = ''m2'', m_tournament_id = ''t'', m_round = Some 2,
           m_home_team_id = Some ''A'', m_away_team_id = Some ''C'',
           m_player1_email = None, m_player2_email = None,
           m_player1_score = Some 0, m_player2_score = Some 0,
           m_played_at = Some ''2024-01-02'' \<rparr>,
         \<lparr> m_id = ''m3'', m_tournament_id = ''t'', m_round = Some 3,
           m_home_team_id = Some ''B'', m_away_team_id = Some ''C'',
           m_player1_email = None, m_player2_email = None,
           m_player1_score = None, m_player2_score = None,
           m_played_at = None \<rparr>])
   = [(''A'', 2, 1, 1, 0, 4, 1), (''C'', 1, 0, 1, 0, 1, 0), (''B'', 1, 0, 0, 1, 0, - 1)]"
  by code_simp

section \<open>Properties of the roster gate and the draw\<close>


lemma pick_in_range:
  assumes "0 \<le> (r::rat)" "r < 1"
  shows "nat \<lfloor>r * of_nat (Suc n)\<rfloor> \<le> n"
proof -
  have "r * of_nat (Suc n) < of_nat (Suc n)"
    using assms by (simp add: mult_less_cancel_right1 del: of_nat_Suc)
  then have "\<lfloor>r * of_nat (Suc n)\<rfloor> < int (Suc n)"
    by (simp add: floor_less_iff del: of_nat_Suc)
  then show ?thesis by linarith
qed

lemma mset_shuffle_loop:
  assumes rnd: "\<forall>k. 0 \<le> rnd k \<and> rnd k < 1"
  shows "i < length a \<Longrightarrow> mset (shuffle_loop rnd k i a) = mset a"
proof (induction i arbitrary: k a)
  case 0
  then show ?case by simp
next
  case (Suc i)
  let ?j = "nat \<lfloor>rnd k * of_nat (Suc (Suc i))\<rfloor>"
  have j: "?j \<le> Suc i" using rnd by (intro pick_in_range) auto
  with Suc.prems have jl: "?j < length a" by simp
  have "mset (a[Suc i := a ! ?j, ?j := a ! Suc i]) = mset a"
    using Suc.prems jl by (simp add: mset_swap)
  moreover have "i < length (a[Suc i := a ! ?j, ?j := a ! Suc i])" using Suc.prems by simp
  ultimately show ?case
    using Suc.IH [of "a[Suc i := a ! ?j, ?j := a ! Suc i]" "Suc k"] by (simp add: Let_def)
qed

lemma mset_shuffle:
  assumes "\<forall>k. 0 \<le> rnd k \<and> rnd k < 1"
  shows "mset (shuffle rnd arr) = mset arr"
proof (cases arr)
  case Nil
  then show ?thesis by (simp add: shuffle_def)
next
  case (Cons x xs)
  then have "length arr - 1 < length arr" by simp
  from mset_shuffle_loop [OF assms this] show ?thesis by (simp add: shuffle_def)
qed


lemma zip_take_length_right: "zip (take (length ys) xs) ys = zip xs ys"
proof (induction ys arbitrary: xs)
  case Nil
  then show ?case by simp
next
  case (Cons y ys)
  then show ?case by (cases xs) simp_all
qed

lemma draw_success:
  assumes adm: "isAdmin (role s)" and act: "truthy (activeTournamentId s)"
    and lck: "rosterLocked s"
    and two: "2 \<le> length (onlyPlayers s)"
    and enough: "length (onlyPlayers s) \<le> length (tournamentTeams s)"
  shows "drawTeamsForTournament rnd None None s =
     s\<lparr> drawing := False, tpMsg := Some DrawDone,
        tournament_players :=
          filter (\<lambda>r. tp_tournament_id r \<noteq> the (activeTournamentId s)) (tournament_players s)
          @ map (\<lambda>(p, t). \<lparr> tp_tournament_id = the (activeTournamentId s),
                             tp_player_email = p_email p, tp_team_id = tt_team_id t \<rparr>)
              (zip (onlyPlayers s)
                   (take (length (onlyPlayers s)) (shuffle rnd (tournamentTeams s)))) \<rparr>"
proof -
  have "length (take (length (onlyPlayers s)) (shuffle rnd (tournamentTeams s)))
        \<le> length (onlyPlayers s)" by simp
  then show ?thesis
    using assms
    by (simp add: drawTeamsForTournament_def Let_def onlyPlayers_def zip_take_length_right
             cong: if_cong)
qed

lemma assignments_after_draw:
  "assignments tid
     (s\<lparr> drawing := d, tpMsg := m,
         tournament_players :=
           filter (\<lambda>r. tp_tournament_id r \<noteq> tid) old
           @ map (\<lambda>(p, t). \<lparr> tp_tournament_id = tid,
                              tp_player_email = p_email p, tp_team_id = tt_team_id t \<rparr>) prs \<rparr>)
   = map (\<lambda>(p, t). \<lparr> tp_tournament_id = tid,
                      tp_player_email = p_email p, tp_team_id = tt_team_id t \<rparr>) prs"
proof -
  have "filter (\<lambda>r. tp_tournament_id r = tid) (filter (\<lambda>r. tp_tournament_id r \<noteq> tid) old) = []"
    by (simp add: filter_empty_conv)
  moreover have "filter (\<lambda>r. tp_tournament_id r = tid)
       (map (\<lambda>(p, t). \<lparr> tp_tournament_id = tid,
                      tp_player_email = p_email p, tp_team_id = tt_team_id t \<rparr>) prs)
     = map (\<lambda>(p, t). \<lparr> tp_tournament_id = tid,
                      tp_player_email = p_email p, tp_team_id = tt_team_id t \<rparr>) prs"
    by (induction prs) auto
  ultimately show ?thesis by (simp add: assignments_def)
qed


lemma draw_rows_bijective:
  fixes tid :: string
  assumes rnd: "\<forall>k. 0 \<le> rnd k \<and> rnd k < 1"
    and dt: "distinct (map tt_team_id teams)"
    and n: "length ps \<le> length teams"
  defines "rows \<equiv> map (\<lambda>(p, t). \<lparr> tp_tournament_id = tid,
                             tp_player_email = p_email p, tp_team_id = tt_team_id t \<rparr>)
                     (zip ps (take (length ps) (shuffle rnd teams)))"
  shows "map tp_player_email rows = map p_email ps"
    and "distinct (map tp_team_id rows)"
    and "set (map tp_team_id rows) \<subseteq> tt_team_id ` set teams"
proof -
  let ?sh = "take (length ps) (shuffle rnd teams)"
  have ms: "mset (shuffle rnd teams) = mset teams" by (rule mset_shuffle [OF rnd])
  then have "length (shuffle rnd teams) = length teams" by (metis size_mset)
  with n have len: "length ?sh = length ps" by simp
  have emails: "map tp_player_email rows = map fst (zip (map p_email ps) ?sh)"
    unfolding rows_def by (simp add: zip_map1 o_def case_prod_unfold)
  show "map tp_player_email rows = map p_email ps"
    unfolding emails using len by simp
  have ids: "map tp_team_id rows = map tt_team_id ?sh"
  proof -
    have "map tp_team_id rows = map snd (zip ps (map tt_team_id ?sh))"
      unfolding rows_def by (simp add: zip_map2 o_def case_prod_unfold)
    also have "\<dots> = map tt_team_id ?sh" using len by simp
    finally show ?thesis .
  qed
  have "mset (map tt_team_id (shuffle rnd teams)) = mset (map tt_team_id teams)"
    using ms by (metis mset_map)
  then have d: "distinct (map tt_team_id (shuffle rnd teams))"
    using dt by (metis mset_eq_imp_distinct_iff)
  show "distinct (map tp_team_id rows)"
    unfolding ids take_map [symmetric] using d by (rule distinct_take)
  have "set ?sh \<subseteq> set (shuffle rnd teams)" by (rule set_take_subset)
  also have "\<dots> = set teams" using ms by (rule mset_eq_setD)
  finally show "set (map tp_team_id rows) \<subseteq> tt_team_id ` set teams"
    unfolding ids by auto
qed

text \<open>
  C5, as the code has it. For an administrator with an active tournament and a locked
  roster, the draw needs at least 2 players of role \<open>player\<close> (otherwise it stops with
  the "at least 2 players" message and changes nothing else) and a team pool at least as
  large as the player count (otherwise it stops with the insufficient-teams message and
  changes nothing else). When both hold, the store accepts the delete and the insert, \<open>Math.random\<close>
  stays in \<open>[0, 1)\<close>, and the player e-mails and the pool's team ids are unique, the
  assignments of the tournament after the draw are a bijection: one row per player, in
  roster order, no player and no team twice, every team taken from the pool.
\<close>

theorem draw_bijective:
  assumes adm: "isAdmin (role s)" and act: "truthy (activeTournamentId s)"
    and lck: "rosterLocked s"
  shows
   "(length (onlyPlayers s) < 2 \<longrightarrow>
       drawTeamsForTournament rnd delErr insErr s = s\<lparr> tpMsg := Some NeedTwoPlayers \<rparr>)
  \<and> (2 \<le> length (onlyPlayers s) \<and> length (tournamentTeams s) < length (onlyPlayers s) \<longrightarrow>
       drawTeamsForTournament rnd delErr insErr s = s\<lparr> tpMsg := Some InsufficientTeams \<rparr>)
  \<and> (2 \<le> length (onlyPlayers s) \<and> length (onlyPlayers s) \<le> length (tournamentTeams s)
       \<and> (\<forall>k. 0 \<le> rnd k \<and> rnd k < 1)
       \<and> distinct (map p_email (players s)) \<and> distinct (map tt_team_id (tournamentTeams s)) \<longrightarrow>
       tpMsg (drawTeamsForTournament rnd None None s) = Some DrawDone
     \<and> map tp_player_email
           (assignments (the (activeTournamentId s)) (drawTeamsForTournament rnd None None s))
         = map p_email (onlyPlayers s)
     \<and> distinct (map tp_player_email
           (assignments (the (activeTournamentId s)) (drawTeamsForTournament rnd None None s)))
     \<and> distinct (map tp_team_id
           (assignments (the (activeTournamentId s)) (drawTeamsForTournament rnd None None s)))
     \<and> set (map tp_team_id
           (assignments (the (activeTournamentId s)) (drawTeamsForTournament rnd None None s)))
         \<subseteq> tt_team_id ` set (tournamentTeams s))"
proof (intro conjI impI)
  assume "length (onlyPlayers s) < 2"
  then show "drawTeamsForTournament rnd delErr insErr s = s\<lparr> tpMsg := Some NeedTwoPlayers \<rparr>"
    using assms by (simp add: drawTeamsForTournament_def)
next
  assume "2 \<le> length (onlyPlayers s) \<and> length (tournamentTeams s) < length (onlyPlayers s)"
  then show "drawTeamsForTournament rnd delErr insErr s = s\<lparr> tpMsg := Some InsufficientTeams \<rparr>"
    using assms by (simp add: drawTeamsForTournament_def)
next
  assume h: "2 \<le> length (onlyPlayers s) \<and> length (onlyPlayers s) \<le> length (tournamentTeams s)
       \<and> (\<forall>k. 0 \<le> rnd k \<and> rnd k < 1)
       \<and> distinct (map p_email (players s)) \<and> distinct (map tt_team_id (tournamentTeams s))"
  let ?tid = "the (activeTournamentId s)"
  let ?rows = "map (\<lambda>(p, t). \<lparr> tp_tournament_id = ?tid,
                             tp_player_email = p_email p, tp_team_id = tt_team_id t \<rparr>)
                 (zip (onlyPlayers s)
                      (take (length (onlyPlayers s)) (shuffle rnd (tournamentTeams s))))"
  from h have two: "2 \<le> length (onlyPlayers s)"
    and enough: "length (onlyPlayers s) \<le> length (tournamentTeams s)"
    and rnd: "\<forall>k. 0 \<le> rnd k \<and> rnd k < 1"
    and de: "distinct (map p_email (players s))"
    and dt: "distinct (map tt_team_id (tournamentTeams s))"
    by simp_all
  note eq = draw_success [OF adm act lck two enough, of rnd]
  have asg: "assignments ?tid (drawTeamsForTournament rnd None None s) = ?rows"
    unfolding eq by (rule assignments_after_draw)
  note b = draw_rows_bijective [OF rnd dt enough, of ?tid]
  show "tpMsg (drawTeamsForTournament rnd None None s) = Some DrawDone"
    unfolding eq by simp
  show "map tp_player_email (assignments ?tid (drawTeamsForTournament rnd None None s))
         = map p_email (onlyPlayers s)"
    unfolding asg by (rule b(1))
  have "distinct (map p_email (onlyPlayers s))"
    using de by (simp add: onlyPlayers_def distinct_map_filter)
  then show "distinct (map tp_player_email
           (assignments ?tid (drawTeamsForTournament rnd None None s)))"
    unfolding asg b(1) .
  show "distinct (map tp_team_id (assignments ?tid (drawTeamsForTournament rnd None None s)))"
    unfolding asg by (rule b(2))
  show "set (map tp_team_id (assignments ?tid (drawTeamsForTournament rnd None None s)))
         \<subseteq> tt_team_id ` set (tournamentTeams s)"
    unfolding asg by (rule b(3))
qed


lemma small_dashboard_locked:
  "isAdmin (role (lockRoster True small_dashboard))"
  "truthy (activeTournamentId (lockRoster True small_dashboard))"
  "rosterLocked (lockRoster True small_dashboard)"
  "onlyPlayers (lockRoster True small_dashboard)
     = [\<lparr> p_email = ''ana@x'', p_name = Some ''Ana'', p_role = ''player'' \<rparr>,
        \<lparr> p_email = ''bob@x'', p_name = Some ''Bob'', p_role = ''player'' \<rparr>]"
  "activeTournamentId (lockRoster True small_dashboard) = Some ''t1''"
  "map tt_team_id (tournamentTeams (lockRoster True small_dashboard)) = [''A'', ''B'', ''C'']"
  "map p_email (players (lockRoster True small_dashboard)) = [''ana@x'', ''boss@x'', ''bob@x'']"
  "length (tournamentTeams (lockRoster True small_dashboard)) = 3"
  by (simp_all add: lockRoster_def small_dashboard_def isAdmin_def truthy_def onlyPlayers_def)

theorem draw_bijective_witness:
  "map tp_player_email
     (assignments ''t1'' (drawTeamsForTournament always_half None None
                            (lockRoster True small_dashboard)))
     = [''ana@x'', ''bob@x'']
   \<and> distinct (map tp_team_id
     (assignments ''t1'' (drawTeamsForTournament always_half None None
                            (lockRoster True small_dashboard))))"
proof -
  let ?s = "lockRoster True small_dashboard"
  have rnd: "\<forall>k. 0 \<le> always_half k \<and> always_half k < 1"
    by (simp add: always_half_def)
  have pre: "2 \<le> length (onlyPlayers ?s) \<and> length (onlyPlayers ?s) \<le> length (tournamentTeams ?s)
       \<and> (\<forall>k. 0 \<le> always_half k \<and> always_half k < 1)
       \<and> distinct (map p_email (players ?s)) \<and> distinct (map tt_team_id (tournamentTeams ?s))"
    using rnd by (simp add: small_dashboard_locked)
  from draw_bijective [OF small_dashboard_locked(1-3), of always_half] pre
  show ?thesis by (simp add: small_dashboard_locked)
qed

lemma draw_example:
  "map (\<lambda>r. (tp_player_email r, tp_team_id r))
     (tournament_players (drawTeamsForTournament always_half None None
                            (lockRoster True small_dashboard)))
   = [(''ana@x'', ''A''), (''bob@x'', ''C'')]"
  by code_simp

text \<open>
  C5 as stated fails: with fewer than two players the draw does not stop with the
  insufficient-teams message. The roster was locked with two players and one of them
  has gone since; the pool holds three teams, more than enough for the one player left.
  The draw stops with the "at least 2 players" message.
\<close>

theorem draw_one_player_counterexample:
  "rosterLocked ((lockRoster True small_dashboard)
      \<lparr> players := [\<lparr> p_email = ''ana@x'', p_name = Some ''Ana'', p_role = ''player'' \<rparr>] \<rparr>)
   \<and> length (onlyPlayers ((lockRoster True small_dashboard)
      \<lparr> players := [\<lparr> p_email = ''ana@x'', p_name = Some ''Ana'', p_role = ''player'' \<rparr>] \<rparr>)) = 1
   \<and> length (tournamentTeams ((lockRoster True small_dashboard)
      \<lparr> players := [\<lparr> p_email = ''ana@x'', p_name = Some ''Ana'', p_role = ''player'' \<rparr>] \<rparr>)) = 3
   \<and> tpMsg (drawTeamsForTournament always_half None None ((lockRoster True small_dashboard)
      \<lparr> players := [\<lparr> p_email = ''ana@x'', p_name = Some ''Ana'', p_role = ''player'' \<rparr>] \<rparr>))
     = Some NeedTwoPlayers
   \<and> tpMsg (drawTeamsForTournament always_half None None ((lockRoster True small_dashboard)
      \<lparr> players := [\<lparr> p_email = ''ana@x'', p_name = Some ''Ana'', p_role = ''player'' \<rparr>] \<rparr>))
     \<noteq> Some InsufficientTeams"
  by (simp add: drawTeamsForTournament_def lockRoster_def small_dashboard_def isAdmin_def
                truthy_def onlyPlayers_def)

text \<open>
  C8. \<open>lockRoster\<close> takes the gate from unlocked to locked only when the roster holds at
  least 2 players of role \<open>player\<close>; with fewer, an administrator with an active
  tournament gets the roster-too-small message and nothing else changes; with at least 2
  and the confirmation given, the gate is locked and the lock is recorded under the
  tournament's key. While the gate is unlocked the draw never runs: it leaves the
  assignments table and the gate as they are, and tells the administrator that the
  roster is not locked.
\<close>

theorem roster_gate:
  "(\<not> rosterLocked s \<and> rosterLocked (lockRoster ok s) \<longrightarrow> 2 \<le> length (onlyPlayers s))
 \<and> (isAdmin (role s) \<and> truthy (activeTournamentId s) \<and> length (onlyPlayers s) < 2 \<longrightarrow>
       lockRoster ok s = s\<lparr> inviteMsg := None, tpMsg := Some RosterTooSmall \<rparr>)
 \<and> (isAdmin (role s) \<and> truthy (activeTournamentId s) \<and> 2 \<le> length (onlyPlayers s) \<and> ok \<longrightarrow>
       rosterLocked (lockRoster ok s)
     \<and> localStorage (lockRoster ok s) (rosterKey (the (activeTournamentId s))) = Some ''1'')
 \<and> (\<not> rosterLocked s \<longrightarrow>
       tournament_players (drawTeamsForTournament rnd delErr insErr s) = tournament_players s
     \<and> \<not> rosterLocked (drawTeamsForTournament rnd delErr insErr s))
 \<and> (\<not> rosterLocked s \<and> isAdmin (role s) \<and> truthy (activeTournamentId s) \<longrightarrow>
       drawTeamsForTournament rnd delErr insErr s = s\<lparr> tpMsg := Some RosterNotLocked \<rparr>)"
  by (auto simp: lockRoster_def drawTeamsForTournament_def)

theorem roster_gate_witness:
  "tpMsg (lockRoster True (small_dashboard\<lparr> players := [] \<rparr>)) = Some RosterTooSmall
 \<and> \<not> rosterLocked (lockRoster True (small_dashboard\<lparr> players := [] \<rparr>))
 \<and> rosterLocked (lockRoster True small_dashboard)
 \<and> tpMsg (drawTeamsForTournament always_half None None small_dashboard) = Some RosterNotLocked
 \<and> tournament_players (drawTeamsForTournament always_half None None small_dashboard)
     = tournament_players small_dashboard"
proof -
  have a: "isAdmin (role small_dashboard)" "truthy (activeTournamentId small_dashboard)"
    "\<not> rosterLocked small_dashboard" "length (onlyPlayers small_dashboard) = 2"
    by (simp_all add: small_dashboard_def isAdmin_def truthy_def onlyPlayers_def)
  have b: "isAdmin (role (small_dashboard\<lparr> players := [] \<rparr>))"
    "truthy (activeTournamentId (small_dashboard\<lparr> players := [] \<rparr>))"
    "\<not> rosterLocked (small_dashboard\<lparr> players := [] \<rparr>)"
    "length (onlyPlayers (small_dashboard\<lparr> players := [] \<rparr>)) = 0"
    by (simp_all add: small_dashboard_def isAdmin_def truthy_def onlyPlayers_def)
  from roster_gate [of small_dashboard True always_half None None]
       roster_gate [of "small_dashboard\<lparr> players := [] \<rparr>" True always_half None None]
  show ?thesis
    by (simp add: a b)
qed


section \<open>Properties of the result recorder\<close>


lemma digit_table:
  "list_all (\<lambda>n. is_digit (digits ! n) \<and> digit_val (digits ! n) = n \<and> \<not> is_ws (digits ! n)
                  \<and> digits ! n \<noteq> CHR ''-'' \<and> digits ! n \<noteq> CHR ''+'') [0..<10]"
  by code_simp

lemma digit_char_props:
  assumes "n < 10"
  shows "is_digit (digits ! n)" and "digit_val (digits ! n) = n" and "\<not> is_ws (digits ! n)"
    and "digits ! n \<noteq> CHR ''-''" and "digits ! n \<noteq> CHR ''+''"
proof -
  from assms have "n \<in> set [0..<10]" by simp
  with digit_table
  have "is_digit (digits ! n) \<and> digit_val (digits ! n) = n \<and> \<not> is_ws (digits ! n)
      \<and> digits ! n \<noteq> CHR ''-'' \<and> digits ! n \<noteq> CHR ''+''"
    unfolding list_all_iff by blast
  then show "is_digit (digits ! n)" and "digit_val (digits ! n) = n" and "\<not> is_ws (digits ! n)"
    and "digits ! n \<noteq> CHR ''-''" and "digits ! n \<noteq> CHR ''+''"
    by simp_all
qed

lemma is_digit_props:
  assumes "is_digit c"
  shows "\<not> is_ws c" and "c \<noteq> CHR ''-''" and "c \<noteq> CHR ''+''"
  using assms by (auto simp: is_digit_def digits_def is_ws_def)

lemma all_digits_string_of_nat: "all_digits (string_of_nat n)"
proof (induction n rule: string_of_nat.induct)
  case (1 n)
  show ?case
  proof (cases "n < 10")
    case True
    then show ?thesis
      by (subst string_of_nat.simps) (simp add: all_digits_def digit_char_props)
  next
    case False
    then have "all_digits (string_of_nat (n div 10))" by (rule "1.IH")
    moreover have "is_digit (digits ! (n mod 10))" by (simp add: digit_char_props)
    ultimately show ?thesis
      using False by (subst string_of_nat.simps) (simp add: all_digits_def)
  qed
qed

lemma digits_value_snoc: "digits_value (s @ [c]) = 10 * digits_value s + digit_val c"
  by (simp add: digits_value_def)

lemma digits_value_string_of_nat: "digits_value (string_of_nat n) = n"
proof (induction n rule: string_of_nat.induct)
  case (1 n)
  show ?case
  proof (cases "n < 10")
    case True
    then show ?thesis
      by (subst string_of_nat.simps) (simp add: digits_value_def digit_char_props)
  next
    case False
    then have "digits_value (string_of_nat (n div 10)) = n div 10" by (rule "1.IH")
    then show ?thesis
      using False
      by (subst string_of_nat.simps) (simp add: digits_value_snoc digit_char_props)
  qed
qed

lemma trim_all_digits: "all_digits s \<Longrightarrow> trim s = s"
proof -
  assume a: "all_digits s"
  then have ne: "s \<noteq> []" and "is_digit (hd s)" and "is_digit (last s)"
    by (auto simp: all_digits_def list_all_iff)
  then have h: "\<not> is_ws (hd s)" and l: "\<not> is_ws (last s)"
    by (simp_all add: is_digit_props)
  from h have "dropWhile is_ws s = s" by (simp add: dropWhile_eq_self_iff)
  moreover from l ne have "dropWhile is_ws (rev s) = rev s"
    by (simp add: dropWhile_eq_self_iff hd_rev)
  ultimately show ?thesis by (simp add: trim_def)
qed

lemma int_literal_all_digits: "all_digits s \<Longrightarrow> int_literal s = Some (int (digits_value s))"
proof -
  assume a: "all_digits s"
  then obtain c ds where s: "s = c # ds" and "is_digit c"
    by (cases s) (auto simp: all_digits_def)
  then have "c \<noteq> CHR ''-''" "c \<noteq> CHR ''+''" by (simp_all add: is_digit_props)
  with a s show ?thesis by (simp add: int_literal_def)
qed

lemma js_Number_js_String:
  assumes "0 \<le> c" "c \<le> 2 ^ 53"
  shows "js_Number ext (js_String c) = Fin (of_int c)"
proof -
  let ?s = "string_of_nat (nat c)"
  have a: "all_digits ?s" by (rule all_digits_string_of_nat)
  then have ne: "?s \<noteq> []" by (simp add: all_digits_def)
  have "int_literal ?s = Some c"
    using assms by (simp add: int_literal_all_digits [OF a] digits_value_string_of_nat)
  then show ?thesis
    using assms ne by (simp add: js_Number_def js_String_def trim_all_digits [OF a])
qed

lemma clampInt_range:
  "clampInt ext v 0 99 = []
   \<or> (\<exists>c. 0 \<le> c \<and> c \<le> 99 \<and> clampInt ext v 0 99 = js_String c
          \<and> js_Number ext (js_String c) = Fin (of_int c))"
proof (cases "js_Number ext v")
  case NaN
  then show ?thesis by (simp add: clampInt_def)
next
  case (Fin x)
  let ?c = "max 0 (min 99 (js_trunc x))"
  have "0 \<le> ?c" "?c \<le> 99" by simp_all
  moreover from this have "js_Number ext (js_String ?c) = Fin (of_int ?c)"
    by (intro js_Number_js_String) simp_all
  moreover have "clampInt ext v 0 99 = js_String ?c" using Fin by (simp add: clampInt_def)
  ultimately show ?thesis by blast
next
  case PosInf
  have "js_Number ext (js_String 99) = Fin (of_int 99)"
    by (intro js_Number_js_String) simp_all
  moreover have "clampInt ext v 0 99 = js_String 99" using PosInf by (simp add: clampInt_def)
  ultimately show ?thesis by force
next
  case NegInf
  have "js_Number ext (js_String 0) = Fin (of_int 0)"
    by (intro js_Number_js_String) simp_all
  moreover have "clampInt ext v 0 99 = js_String 0" using NegInf by (simp add: clampInt_def)
  ultimately show ?thesis by force
qed


lemma js_String_small: "js_String 0 = ''0''" "js_String 99 = ''99''"
  by code_simp+

lemma trim_minus_digits: "all_digits ds \<Longrightarrow> trim (CHR ''-'' # ds) = CHR ''-'' # ds"
proof -
  assume a: "all_digits ds"
  then have ne: "ds \<noteq> []" and "is_digit (last ds)"
    by (auto simp: all_digits_def list_all_iff)
  then have l: "\<not> is_ws (last ds)" by (simp add: is_digit_props)
  have h: "\<not> is_ws (CHR ''-'')" by (simp add: is_ws_def)
  from h have "dropWhile is_ws (CHR ''-'' # ds) = CHR ''-'' # ds" by simp
  moreover from l ne have "dropWhile is_ws (rev (CHR ''-'' # ds)) = rev (CHR ''-'' # ds)"
    by (simp add: dropWhile_eq_self_iff hd_append hd_rev)
  ultimately show ?thesis by (simp add: trim_def)
qed

lemma js_Number_negative_literal:
  assumes "all_digits ds" and "int (digits_value ds) \<le> 2 ^ 53"
  shows "js_Number ext (CHR ''-'' # ds) = Fin (- of_nat (digits_value ds))"
  using assms by (simp add: js_Number_def trim_minus_digits int_literal_def)

lemma clampInt_cases:
  assumes "js_Number ext v = Fin x"
  shows "clampInt ext v 0 99 = js_String (max 0 (min 99 (js_trunc x)))"
    and "x < 0 \<Longrightarrow> clampInt ext v 0 99 = ''0''"
    and "0 \<le> x \<Longrightarrow> x < 100 \<Longrightarrow> clampInt ext v 0 99 = js_String \<lfloor>x\<rfloor>"
    and "99 \<le> x \<Longrightarrow> clampInt ext v 0 99 = ''99''"
proof -
  show e: "clampInt ext v 0 99 = js_String (max 0 (min 99 (js_trunc x)))"
    using assms by (simp add: clampInt_def)
  show "clampInt ext v 0 99 = ''0''" if "x < 0"
  proof -
    from that have "\<lceil>x\<rceil> \<le> 0" by (simp add: ceiling_le_iff)
    with that have "max 0 (min 99 (js_trunc x)) = 0" by (simp add: js_trunc_def)
    then show ?thesis by (simp add: e js_String_small)
  qed
  show "clampInt ext v 0 99 = js_String \<lfloor>x\<rfloor>" if "0 \<le> x" "x < 100"
  proof -
    from that have "0 \<le> \<lfloor>x\<rfloor>" "\<lfloor>x\<rfloor> < 100" by (simp_all add: floor_less_iff)
    with that have "max 0 (min 99 (js_trunc x)) = \<lfloor>x\<rfloor>" by (simp add: js_trunc_def)
    then show ?thesis by (simp add: e)
  qed
  show "clampInt ext v 0 99 = ''99''" if "99 \<le> x"
  proof -
    from that have "99 \<le> \<lfloor>x\<rfloor>" by (simp add: le_floor_iff)
    with that have "max 0 (min 99 (js_trunc x)) = 99" by (simp add: js_trunc_def)
    then show ?thesis by (simp add: e js_String_small)
  qed
qed

lemma clampInt_negative_literal:
  assumes "all_digits ds" and "int (digits_value ds) \<le> 2 ^ 53"
  shows "clampInt ext (CHR ''-'' # ds) 0 99 = ''0''"
proof (cases "digits_value ds = 0")
  case True
  with js_Number_negative_literal [OF assms, of ext]
  have "js_Number ext (CHR ''-'' # ds) = Fin 0" by simp
  from clampInt_cases(3) [OF this] show ?thesis by (simp add: js_String_small)
next
  case False
  then have "- (of_nat (digits_value ds) :: rat) < 0" by simp
  with clampInt_cases(2) [OF js_Number_negative_literal [OF assms, of ext]] show ?thesis .
qed

lemma save_reject:
  assumes "isAdmin (role s)" and "truthy (activeTournamentId s)"
    and "trim (editHomeGoals s) = [] \<or> trim (editAwayGoals s) = []
       \<or> js_Number ext (editHomeGoals s) = NaN \<or> js_Number ext (editAwayGoals s) = NaN"
  shows "saveMatchResult ext now dbErr matchId s = (s\<lparr> mMsg := Some InvalidScore \<rparr>, None)"
  using assms by (auto simp: saveMatchResult_def Let_def)

lemma save_accept:
  assumes "isAdmin (role s)" and "truthy (activeTournamentId s)"
    and "trim (editHomeGoals s) \<noteq> []" "trim (editAwayGoals s) \<noteq> []"
    and "js_Number ext (editHomeGoals s) \<noteq> NaN" "js_Number ext (editAwayGoals s) \<noteq> NaN"
  shows "saveMatchResult ext now None matchId s =
         (s\<lparr> mMsg := None, editingMatchId := None, editHomeGoals := [], editAwayGoals := [],
             savingMatchId := None \<rparr>,
          Some \<lparr> u_id = matchId, u_player1_score = js_Number ext (editHomeGoals s),
                 u_player2_score = js_Number ext (editAwayGoals s), u_played_at = now \<rparr>)"
    and "saveMatchResult ext now (Some msg) matchId s =
         (s\<lparr> mMsg := Some (SaveResultFailed msg), savingMatchId := None \<rparr>, None)"
  using assms by (simp_all add: saveMatchResult_def Let_def)

lemma save_after_home_change:
  assumes "isAdmin (role s)" and "truthy (activeTournamentId s)"
    and "all_digits ds" and "int (digits_value ds) \<le> 2 ^ 53"
    and "trim (editAwayGoals s) \<noteq> []" and "js_Number ext (editAwayGoals s) \<noteq> NaN"
  shows "snd (saveMatchResult ext now None matchId (onChangeHomeGoals ext (CHR ''-'' # ds) s))
       = Some \<lparr> u_id = matchId, u_player1_score = Fin 0,
                u_player2_score = js_Number ext (editAwayGoals s), u_played_at = now \<rparr>"
proof -
  let ?s = "onChangeHomeGoals ext (CHR ''-'' # ds) s"
  have f: "editHomeGoals ?s = ''0''" "editAwayGoals ?s = editAwayGoals s"
    "role ?s = role s" "activeTournamentId ?s = activeTournamentId s"
    by (simp_all add: onChangeHomeGoals_def clampInt_negative_literal [OF assms(3,4)])
  have z: "js_Number ext ''0'' = Fin 0" "trim ''0'' \<noteq> []"
    using js_Number_js_String [of 0 ext] by (simp_all add: js_String_small trim_def is_ws_def)
  have "saveMatchResult ext now None matchId ?s =
         (?s\<lparr> mMsg := None, editingMatchId := None, editHomeGoals := [], editAwayGoals := [],
             savingMatchId := None \<rparr>,
          Some \<lparr> u_id = matchId, u_player1_score = js_Number ext (editHomeGoals ?s),
                 u_player2_score = js_Number ext (editAwayGoals ?s), u_played_at = now \<rparr>)"
    by (rule save_accept(1)) (simp_all add: f z assms)
  then show ?thesis by (simp add: f z)
qed

lemma save_after_away_change:
  assumes "isAdmin (role s)" and "truthy (activeTournamentId s)"
    and "all_digits ds" and "int (digits_value ds) \<le> 2 ^ 53"
    and "trim (editHomeGoals s) \<noteq> []" and "js_Number ext (editHomeGoals s) \<noteq> NaN"
  shows "snd (saveMatchResult ext now None matchId (onChangeAwayGoals ext (CHR ''-'' # ds) s))
       = Some \<lparr> u_id = matchId, u_player1_score = js_Number ext (editHomeGoals s),
                u_player2_score = Fin 0, u_played_at = now \<rparr>"
proof -
  let ?s = "onChangeAwayGoals ext (CHR ''-'' # ds) s"
  have f: "editAwayGoals ?s = ''0''" "editHomeGoals ?s = editHomeGoals s"
    "role ?s = role s" "activeTournamentId ?s = activeTournamentId s"
    by (simp_all add: onChangeAwayGoals_def clampInt_negative_literal [OF assms(3,4)])
  have z: "js_Number ext ''0'' = Fin 0" "trim ''0'' \<noteq> []"
    using js_Number_js_String [of 0 ext] by (simp_all add: js_String_small trim_def is_ws_def)
  have "saveMatchResult ext now None matchId ?s =
         (?s\<lparr> mMsg := None, editingMatchId := None, editHomeGoals := [], editAwayGoals := [],
             savingMatchId := None \<rparr>,
          Some \<lparr> u_id = matchId, u_player1_score = js_Number ext (editHomeGoals ?s),
                 u_player2_score = js_Number ext (editAwayGoals ?s), u_played_at = now \<rparr>)"
    by (rule save_accept(1)) (simp_all add: f z assms)
  then show ?thesis by (simp add: f z)
qed

text \<open>
  C4, as the code has it. For an administrator with an active tournament,
  \<open>saveMatchResult\<close> rejects a submission exactly when a score field is blank or
  \<open>Number\<close> reads it as not-a-number: it shows the invalid-score message, sends no
  update and changes nothing else. Every other submission is accepted with no further
  check: the update carries the two numbers as \<open>Number\<close> reads them and the current
  time as \<open>played_at\<close> (when the store refuses the update, only the message changes).
  In particular a field that holds a negative integer (of magnitude at most \<open>2^53\<close>,
  where \<open>Number\<close> is known exactly) is accepted, and that negative score is sent.
  Negative values are handled before, by clamping instead of rejecting:
  \<open>clampInt(v, 0, 99)\<close> is the empty string when \<open>v\<close> is not a number and otherwise
  the decimal form of the number truncated towards zero and clamped into 0 to 99, that
  is 0 for every negative number and for negative infinity, the integer part for a
  number from 0 up to 100, and 99 from 99 on and for positive infinity; \<open>Number\<close> reads
  that form back as the same integer. So a score input that is handed such a negative
  integer holds 0, and saving then sends 0.
\<close>

theorem saveMatchResult_validation:
  assumes adm: "isAdmin (role s)" and act: "truthy (activeTournamentId s)"
  shows
   "(trim (editHomeGoals s) = [] \<or> trim (editAwayGoals s) = []
       \<or> js_Number ext (editHomeGoals s) = NaN \<or> js_Number ext (editAwayGoals s) = NaN \<longrightarrow>
       saveMatchResult ext now dbErr matchId s = (s\<lparr> mMsg := Some InvalidScore \<rparr>, None))
  \<and> (trim (editHomeGoals s) \<noteq> [] \<and> trim (editAwayGoals s) \<noteq> []
       \<and> js_Number ext (editHomeGoals s) \<noteq> NaN \<and> js_Number ext (editAwayGoals s) \<noteq> NaN \<longrightarrow>
       saveMatchResult ext now None matchId s =
         (s\<lparr> mMsg := None, editingMatchId := None, editHomeGoals := [], editAwayGoals := [],
             savingMatchId := None \<rparr>,
          Some \<lparr> u_id = matchId, u_player1_score = js_Number ext (editHomeGoals s),
                 u_player2_score = js_Number ext (editAwayGoals s), u_played_at = now \<rparr>)
     \<and> saveMatchResult ext now (Some msg) matchId s =
         (s\<lparr> mMsg := Some (SaveResultFailed msg), savingMatchId := None \<rparr>, None))
  \<and> (all_digits ds \<and> int (digits_value ds) \<le> 2 ^ 53 \<longrightarrow>
       trim (CHR ''-'' # ds) \<noteq> []
     \<and> js_Number ext (CHR ''-'' # ds) = Fin (- of_nat (digits_value ds))
     \<and> clampInt ext (CHR ''-'' # ds) 0 99 = ''0'')
  \<and> (all_digits ds \<and> int (digits_value ds) \<le> 2 ^ 53 \<and> editHomeGoals s = CHR ''-'' # ds
       \<and> trim (editAwayGoals s) \<noteq> [] \<and> js_Number ext (editAwayGoals s) \<noteq> NaN \<longrightarrow>
       snd (saveMatchResult ext now None matchId s) =
         Some \<lparr> u_id = matchId, u_player1_score = Fin (- of_nat (digits_value ds)),
                u_player2_score = js_Number ext (editAwayGoals s), u_played_at = now \<rparr>)
  \<and> (all_digits ds \<and> int (digits_value ds) \<le> 2 ^ 53 \<and> editAwayGoals s = CHR ''-'' # ds
       \<and> trim (editHomeGoals s) \<noteq> [] \<and> js_Number ext (editHomeGoals s) \<noteq> NaN \<longrightarrow>
       snd (saveMatchResult ext now None matchId s) =
         Some \<lparr> u_id = matchId, u_player1_score = js_Number ext (editHomeGoals s),
                u_player2_score = Fin (- of_nat (digits_value ds)), u_played_at = now \<rparr>)
  \<and> (js_Number ext v = NaN \<longrightarrow> clampInt ext v 0 99 = [])
  \<and> (js_Number ext v = PosInf \<longrightarrow> clampInt ext v 0 99 = ''99'')
  \<and> (js_Number ext v = NegInf \<longrightarrow> clampInt ext v 0 99 = ''0'')
  \<and> (js_Number ext v = Fin x \<longrightarrow>
       clampInt ext v 0 99 = js_String (max 0 (min 99 (js_trunc x)))
     \<and> (x < 0 \<longrightarrow> clampInt ext v 0 99 = ''0'')
     \<and> (0 \<le> x \<and> x < 100 \<longrightarrow> clampInt ext v 0 99 = js_String \<lfloor>x\<rfloor>)
     \<and> (99 \<le> x \<longrightarrow> clampInt ext v 0 99 = ''99''))
  \<and> (clampInt ext v 0 99 = []
       \<or> (\<exists>c. 0 \<le> c \<and> c \<le> 99 \<and> clampInt ext v 0 99 = js_String c
              \<and> js_Number ext (js_String c) = Fin (of_int c)))
  \<and> (all_digits ds \<and> int (digits_value ds) \<le> 2 ^ 53
       \<and> trim (editAwayGoals s) \<noteq> [] \<and> js_Number ext (editAwayGoals s) \<noteq> NaN \<longrightarrow>
       snd (saveMatchResult ext now None matchId (onChangeHomeGoals ext (CHR ''-'' # ds) s)) =
         Some \<lparr> u_id = matchId, u_player1_score = Fin 0,
                u_player2_score = js_Number ext (editAwayGoals s), u_played_at = now \<rparr>)
  \<and> (all_digits ds \<and> int (digits_value ds) \<le> 2 ^ 53
       \<and> trim (editHomeGoals s) \<noteq> [] \<and> js_Number ext (editHomeGoals s) \<noteq> NaN \<longrightarrow>
       snd (saveMatchResult ext now None matchId (onChangeAwayGoals ext (CHR ''-'' # ds) s)) =
         Some \<lparr> u_id = matchId, u_player1_score = js_Number ext (editHomeGoals s),
                u_player2_score = Fin 0, u_played_at = now \<rparr>)"
proof -
  have c1: "trim (editHomeGoals s) = [] \<or> trim (editAwayGoals s) = []
       \<or> js_Number ext (editHomeGoals s) = NaN \<or> js_Number ext (editAwayGoals s) = NaN \<longrightarrow>
       saveMatchResult ext now dbErr matchId s = (s\<lparr> mMsg := Some InvalidScore \<rparr>, None)"
    using save_reject [OF adm act] by blast
  have c2: "trim (editHomeGoals s) \<noteq> [] \<and> trim (editAwayGoals s) \<noteq> []
       \<and> js_Number ext (editHomeGoals s) \<noteq> NaN \<and> js_Number ext (editAwayGoals s) \<noteq> NaN \<longrightarrow>
       saveMatchResult ext now None matchId s =
         (s\<lparr> mMsg := None, editingMatchId := None, editHomeGoals := [], editAwayGoals := [],
             savingMatchId := None \<rparr>,
          Some \<lparr> u_id = matchId, u_player1_score = js_Number ext (editHomeGoals s),
                 u_player2_score = js_Number ext (editAwayGoals s), u_played_at = now \<rparr>)
     \<and> saveMatchResult ext now (Some msg) matchId s =
         (s\<lparr> mMsg := Some (SaveResultFailed msg), savingMatchId := None \<rparr>, None)"
    using save_accept [OF adm act] by blast
  have c3: "all_digits ds \<and> int (digits_value ds) \<le> 2 ^ 53 \<longrightarrow>
       trim (CHR ''-'' # ds) \<noteq> []
     \<and> js_Number ext (CHR ''-'' # ds) = Fin (- of_nat (digits_value ds))
     \<and> clampInt ext (CHR ''-'' # ds) 0 99 = ''0''"
    by (simp add: trim_minus_digits js_Number_negative_literal clampInt_negative_literal)
  have c4: "all_digits ds \<and> int (digits_value ds) \<le> 2 ^ 53 \<and> editHomeGoals s = CHR ''-'' # ds
       \<and> trim (editAwayGoals s) \<noteq> [] \<and> js_Number ext (editAwayGoals s) \<noteq> NaN \<longrightarrow>
       snd (saveMatchResult ext now None matchId s) =
         Some \<lparr> u_id = matchId, u_player1_score = Fin (- of_nat (digits_value ds)),
                u_player2_score = js_Number ext (editAwayGoals s), u_played_at = now \<rparr>"
  proof
    assume h: "all_digits ds \<and> int (digits_value ds) \<le> 2 ^ 53 \<and> editHomeGoals s = CHR ''-'' # ds
       \<and> trim (editAwayGoals s) \<noteq> [] \<and> js_Number ext (editAwayGoals s) \<noteq> NaN"
    then have n: "js_Number ext (editHomeGoals s) = Fin (- of_nat (digits_value ds))"
      and t: "trim (editHomeGoals s) \<noteq> []"
      by (simp_all add: js_Number_negative_literal trim_minus_digits)
    from save_accept(1) [OF adm act t, of ext now matchId] h n
    show "snd (saveMatchResult ext now None matchId s) =
         Some \<lparr> u_id = matchId, u_player1_score = Fin (- of_nat (digits_value ds)),
                u_player2_score = js_Number ext (editAwayGoals s), u_played_at = now \<rparr>"
      by simp
  qed
  have c5: "all_digits ds \<and> int (digits_value ds) \<le> 2 ^ 53 \<and> editAwayGoals s = CHR ''-'' # ds
       \<and> trim (editHomeGoals s) \<noteq> [] \<and> js_Number ext (editHomeGoals s) \<noteq> NaN \<longrightarrow>
       snd (saveMatchResult ext now None matchId s) =
         Some \<lparr> u_id = matchId, u_player1_score = js_Number ext (editHomeGoals s),
                u_player2_score = Fin (- of_nat (digits_value ds)), u_played_at = now \<rparr>"
  proof
    assume h: "all_digits ds \<and> int (digits_value ds) \<le> 2 ^ 53 \<and> editAwayGoals s = CHR ''-'' # ds
       \<and> trim (editHomeGoals s) \<noteq> [] \<and> js_Number ext (editHomeGoals s) \<noteq> NaN"
    then have n: "js_Number ext (editAwayGoals s) = Fin (- of_nat (digits_value ds))"
      and t: "trim (editAwayGoals s) \<noteq> []"
      by (simp_all add: js_Number_negative_literal trim_minus_digits)
    from h have t': "trim (editHomeGoals s) \<noteq> []" by simp
    from save_accept(1) [OF adm act t' t, of ext now matchId] h n
    show "snd (saveMatchResult ext now None matchId s) =
         Some \<lparr> u_id = matchId, u_player1_score = js_Number ext (editHomeGoals s),
                u_player2_score = Fin (- of_nat (digits_value ds)), u_played_at = now \<rparr>"
      by simp
  qed
  have c6: "js_Number ext v = NaN \<longrightarrow> clampInt ext v 0 99 = []"
    and c7: "js_Number ext v = PosInf \<longrightarrow> clampInt ext v 0 99 = ''99''"
    and c8: "js_Number ext v = NegInf \<longrightarrow> clampInt ext v 0 99 = ''0''"
    by (simp_all add: clampInt_def js_String_small)
  have c9: "js_Number ext v = Fin x \<longrightarrow>
       clampInt ext v 0 99 = js_String (max 0 (min 99 (js_trunc x)))
     \<and> (x < 0 \<longrightarrow> clampInt ext v 0 99 = ''0'')
     \<and> (0 \<le> x \<and> x < 100 \<longrightarrow> clampInt ext v 0 99 = js_String \<lfloor>x\<rfloor>)
     \<and> (99 \<le> x \<longrightarrow> clampInt ext v 0 99 = ''99'')"
    using clampInt_cases [of ext v x] by blast
  have c10: "clampInt ext v 0 99 = []
       \<or> (\<exists>c. 0 \<le> c \<and> c \<le> 99 \<and> clampInt ext v 0 99 = js_String c
              \<and> js_Number ext (js_String c) = Fin (of_int c))"
    by (rule clampInt_range)
  have c11: "all_digits ds \<and> int (digits_value ds) \<le> 2 ^ 53
       \<and> trim (editAwayGoals s) \<noteq> [] \<and> js_Number ext (editAwayGoals s) \<noteq> NaN \<longrightarrow>
       snd (saveMatchResult ext now None matchId (onChangeHomeGoals ext (CHR ''-'' # ds) s)) =
         Some \<lparr> u_id = matchId, u_player1_score = Fin 0,
                u_player2_score = js_Number ext (editAwayGoals s), u_played_at = now \<rparr>"
    using save_after_home_change [OF adm act] by blast
  have c12: "all_digits ds \<and> int (digits_value ds) \<le> 2 ^ 53
       \<and> trim (editHomeGoals s) \<noteq> [] \<and> js_Number ext (editHomeGoals s) \<noteq> NaN \<longrightarrow>
       snd (saveMatchResult ext now None matchId (onChangeAwayGoals ext (CHR ''-'' # ds) s)) =
         Some \<lparr> u_id = matchId, u_player1_score = js_Number ext (editHomeGoals s),
                u_player2_score = Fin 0, u_played_at = now \<rparr>"
    using save_after_away_change [OF adm act] by blast
  from c1 c2 c3 c4 c5 c6 c7 c8 c9 c10 c11 c12 show ?thesis
    by (intro conjI)
qed

theorem saveMatchResult_validation_witness:
  "snd (saveMatchResult nan_elsewhere ''2024-05-01T20:00:00.000Z'' None ''m1''
          (small_dashboard\<lparr> editHomeGoals := ''2'', editAwayGoals := ''1'' \<rparr>))
     = Some \<lparr> u_id = ''m1'', u_player1_score = Fin 2, u_player2_score = Fin 1,
              u_played_at = ''2024-05-01T20:00:00.000Z'' \<rparr>
   \<and> snd (saveMatchResult nan_elsewhere ''2024-05-01T20:00:00.000Z'' None ''m1''
          (small_dashboard\<lparr> editHomeGoals := ''2'', editAwayGoals := ''x'' \<rparr>)) = None
   \<and> mMsg (fst (saveMatchResult nan_elsewhere ''2024-05-01T20:00:00.000Z'' None ''m1''
          (small_dashboard\<lparr> editHomeGoals := ''2'', editAwayGoals := ''x'' \<rparr>)))
     = Some InvalidScore
   \<and> clampInt nan_elsewhere ''-3'' 0 99 = ''0''
   \<and> snd (saveMatchResult nan_elsewhere ''2024-05-01T20:00:00.000Z'' None ''m1''
          (onChangeHomeGoals nan_elsewhere ''-3''
             (small_dashboard\<lparr> editHomeGoals := ''2'', editAwayGoals := ''1'' \<rparr>)))
     = Some \<lparr> u_id = ''m1'', u_player1_score = Fin 0, u_player2_score = Fin 1,
              u_played_at = ''2024-05-01T20:00:00.000Z'' \<rparr>"
proof -
  let ?good = "small_dashboard\<lparr> editHomeGoals := ''2'', editAwayGoals := ''1'' \<rparr>"
  let ?bad = "small_dashboard\<lparr> editHomeGoals := ''2'', editAwayGoals := ''x'' \<rparr>"
  have adm: "isAdmin (role ?good)" "truthy (activeTournamentId ?good)"
    "isAdmin (role ?bad)" "truthy (activeTournamentId ?bad)"
    by (simp_all add: small_dashboard_def isAdmin_def truthy_def)
  have n: "js_Number nan_elsewhere ''2'' = Fin 2" "js_Number nan_elsewhere ''1'' = Fin 1"
    "js_Number nan_elsewhere ''x'' = NaN" "trim ''2'' \<noteq> []" "trim ''1'' \<noteq> []"
    "all_digits ''3''" "int (digits_value ''3'') \<le> 2 ^ 53"
    by code_simp+
  note g = saveMatchResult_validation [OF adm(1,2), where ext = nan_elsewhere
         and now = "''2024-05-01T20:00:00.000Z''" and matchId = "''m1''" and ds = "''3''"]
  note b = saveMatchResult_validation [OF adm(3,4), where ext = nan_elsewhere
         and now = "''2024-05-01T20:00:00.000Z''" and matchId = "''m1''" and dbErr = None]
  from g have 1: "snd (saveMatchResult nan_elsewhere ''2024-05-01T20:00:00.000Z'' None ''m1'' ?good)
     = Some \<lparr> u_id = ''m1'', u_player1_score = Fin 2, u_player2_score = Fin 1,
              u_played_at = ''2024-05-01T20:00:00.000Z'' \<rparr>"
    by (simp add: n)
  from b have 2: "saveMatchResult nan_elsewhere ''2024-05-01T20:00:00.000Z'' None ''m1'' ?bad
     = (?bad\<lparr> mMsg := Some InvalidScore \<rparr>, None)"
    by (simp add: n)
  from g have 3: "clampInt nan_elsewhere ''-3'' 0 99 = ''0''"
    using n(6,7) by blast
  from g have 4: "snd (saveMatchResult nan_elsewhere ''2024-05-01T20:00:00.000Z'' None ''m1''
          (onChangeHomeGoals nan_elsewhere ''-3'' ?good))
     = Some \<lparr> u_id = ''m1'', u_player1_score = Fin 0, u_player2_score = Fin 1,
              u_played_at = ''2024-05-01T20:00:00.000Z'' \<rparr>"
    using n(6,7) by (simp add: n(1-5))
  from 1 2 3 4 show ?thesis by simp
qed

text \<open>
  C4 as stated fails: a negative score is not rejected. Submitted as it is, \<open>-3\<close> to 1 is
  accepted and sent to the store; handed to the input handler, the value \<open>-3\<close> becomes 0
  in the field and 0 to 1 is sent. Neither way shows the invalid-score message.
\<close>

theorem negative_score_accepted_counterexample:
  "saveMatchResult nan_elsewhere ''2024-05-01T20:00:00.000Z'' None ''m1''
          (small_dashboard\<lparr> editHomeGoals := ''-3'', editAwayGoals := ''1'' \<rparr>)
     = (small_dashboard\<lparr> editHomeGoals := [], editAwayGoals := [] \<rparr>,
        Some \<lparr> u_id = ''m1'', u_player1_score = Fin (- 3), u_player2_score = Fin 1,
               u_played_at = ''2024-05-01T20:00:00.000Z'' \<rparr>)
   \<and> editHomeGoals (onChangeHomeGoals nan_elsewhere ''-3'' small_dashboard) = ''0''
   \<and> saveMatchResult nan_elsewhere ''2024-05-01T20:00:00.000Z'' None ''m1''
          (onChangeAwayGoals nan_elsewhere ''1''
             (onChangeHomeGoals nan_elsewhere ''-3'' small_dashboard))
     = (small_dashboard\<lparr> editHomeGoals := [], editAwayGoals := [] \<rparr>,
        Some \<lparr> u_id = ''m1'', u_player1_score = Fin 0, u_player2_score = Fin 1,
               u_played_at = ''2024-05-01T20:00:00.000Z'' \<rparr>)"
proof -
  have n: "js_Number nan_elsewhere ''-3'' = Fin (- 3)" "js_Number nan_elsewhere ''1'' = Fin 1"
    "js_Number nan_elsewhere ''0'' = Fin 0"
    "trim ''-3'' \<noteq> []" "trim ''1'' \<noteq> []" "trim ''0'' \<noteq> []"
    "clampInt nan_elsewhere ''-3'' 0 99 = ''0''" "clampInt nan_elsewhere ''1'' 0 99 = ''1''"
    by code_simp+
  show ?thesis
    by (simp add: saveMatchResult_def onChangeHomeGoals_def onChangeAwayGoals_def n Let_def
                  small_dashboard_def isAdmin_def truthy_def)
qed


section \<open>Properties of the round-robin generator\<close>


lemma pair_loop_eq:
  "pair_loop tid n half r arr i =
     map (fixture_of tid r)
       (filter (\<lambda>p. fst p \<noteq> BYE \<and> snd p \<noteq> BYE)
          (map (\<lambda>i. (arr ! i, arr ! (n - 1 - i))) [i..<half]))"
proof (induction tid n half r arr i rule: pair_loop.induct)
  case (1 tid n half r arr i)
  show ?case
  proof (cases "i < half")
    case False
    then show ?thesis by (subst pair_loop.simps) simp
  next
    case True
    then have upt: "[i..<half] = i # [Suc i..<half]" by (simp add: upt_conv_Cons)
    show ?thesis
    proof (cases "arr ! i = BYE \<or> arr ! (n - 1 - i) = BYE")
      case bye: True
      with True "1.IH"(1) [OF True refl refl] show ?thesis
        by (subst pair_loop.simps) (auto simp: upt Let_def)
    next
      case nobye: False
      with True "1.IH"(2) [OF True refl refl _ refl refl] show ?thesis
        by (subst pair_loop.simps) (auto simp: upt Let_def fixture_of_def odd_iff_mod_2_eq_one)
    qed
  qed
qed

lemma round_loop_eq:
  "round_loop tid n rounds half r arr =
     concat (map (\<lambda>q. pair_loop tid n half q ((next_round_arr ^^ (q - r)) arr) 0)
               [r..<Suc rounds])"
proof (induction tid n rounds half r arr rule: round_loop.induct)
  case (1 tid n rounds half r arr)
  show ?case
  proof (cases "r \<le> rounds")
    case False
    then show ?thesis by (subst round_loop.simps) simp
  next
    case True
    then have upt: "[r..<Suc rounds] = r # [Suc r..<Suc rounds]" by (simp add: upt_conv_Cons)
    have "map (\<lambda>q. pair_loop tid n half q ((next_round_arr ^^ (q - Suc r)) (next_round_arr arr)) 0)
              [Suc r..<Suc rounds]
        = map (\<lambda>q. pair_loop tid n half q ((next_round_arr ^^ (q - r)) arr) 0)
              [Suc r..<Suc rounds]"
    proof (rule map_cong [OF refl])
      fix q assume "q \<in> set [Suc r..<Suc rounds]"
      then have "q - r = Suc (q - Suc r)" by auto
      then show "pair_loop tid n half q ((next_round_arr ^^ (q - Suc r)) (next_round_arr arr)) 0
               = pair_loop tid n half q ((next_round_arr ^^ (q - r)) arr) 0"
        by (simp add: funpow_swap1)
    qed
    note meq = this
    have "round_loop tid n rounds half r arr
        = pair_loop tid n half r arr 0
          @ round_loop tid n rounds half (Suc r) (next_round_arr arr)"
      using True by (subst round_loop.simps) simp
    also have "\<dots> = pair_loop tid n half r ((next_round_arr ^^ (r - r)) arr) 0
          @ concat (map (\<lambda>q. pair_loop tid n half q ((next_round_arr ^^ (q - r)) arr) 0)
                      [Suc r..<Suc rounds])"
      unfolding "1.IH" [OF True] meq by simp
    also have "\<dots> = concat (map (\<lambda>q. pair_loop tid n half q ((next_round_arr ^^ (q - r)) arr) 0)
               [r..<Suc rounds])"
      unfolding upt by simp
    finally show ?thesis .
  qed
qed


lemma length_next_round_arr: "2 \<le> length a \<Longrightarrow> length (next_round_arr a) = length a"
  by (cases a) (auto simp: next_round_arr_def Let_def)

lemma nth_next_round_arr:
  assumes "length a = Suc m" and "1 \<le> m" and "j \<le> m"
  shows "next_round_arr a ! j = (if j = 0 then a ! 0 else if j = 1 then a ! m else a ! (j - 1))"
proof -
  from assms(1) obtain x rest where a: "a = x # rest" by (cases a) auto
  with assms have rest: "length rest = m" "rest \<noteq> []" by auto
  show ?thesis
  proof (cases j)
    case 0
    then show ?thesis by (simp add: next_round_arr_def a)
  next
    case (Suc j')
    show ?thesis
    proof (cases j')
      case 0
      moreover from rest have "m \<noteq> 0" by auto
      ultimately show ?thesis
        using Suc rest by (simp add: next_round_arr_def a last_conv_nth nth_Cons')
    next
      case (Suc j'')
      with \<open>j = Suc j'\<close> assms rest have "j'' < length (butlast rest)" by simp
      then have "butlast rest ! j'' = rest ! j''" by (rule nth_butlast)
      with Suc \<open>j = Suc j'\<close> show ?thesis
        by (simp add: next_round_arr_def a)
    qed
  qed
qed

lemma length_funpow_next_round_arr:
  "2 \<le> length a \<Longrightarrow> length ((next_round_arr ^^ k) a) = length a"
  by (induction k) (simp_all add: length_next_round_arr)

lemma origin_0 [simp]: "origin m k 0 = 0"
  by (simp add: origin_def)

lemma origin_round0: "j \<le> m \<Longrightarrow> origin m 0 j = j"
  by (cases j) (simp_all add: origin_def)

lemma origin_Suc_1: "1 \<le> m \<Longrightarrow> origin m (Suc k) (Suc 0) = origin m k m"
proof -
  assume m: "1 \<le> m"
  have "Suc k * (m - 1) = k * (m - 1) + (m - 1)" by simp
  with m show ?thesis by (simp add: origin_def)
qed

lemma origin_Suc_shift:
  assumes "2 \<le> j" and "1 \<le> m"
  shows "origin m (Suc k) j = origin m k (j - 1)"
proof -
  from assms(1) obtain j' where j: "j = Suc (Suc j')"
    by (metis Suc_le_D numeral_2_eq_2 Suc_le_mono)
  from assms(2) obtain m' where m: "m = Suc m'" by (cases m) auto
  have "Suc k * (m - 1) + (j - 1) = (k * (m - 1) + j') + m"
    using j by (simp add: m)
  then have "(Suc k * (m - 1) + (j - 1)) mod m = (k * (m - 1) + j') mod m"
    by (metis mod_add_self2)
  then show ?thesis using j by (simp add: origin_def)
qed

lemma origin_le: "1 \<le> m \<Longrightarrow> origin m k j \<le> m"
  by (auto simp: origin_def Suc_le_eq)

lemma funpow_next_round_arr:
  assumes "length w = Suc m" and "1 \<le> m"
  shows "(next_round_arr ^^ k) w = map (\<lambda>j. w ! origin m k j) [0..<Suc m]"
proof (induction k)
  case 0
  show ?case
    by (rule nth_equalityI) (simp_all add: assms origin_round0 less_Suc_eq_le del: upt_Suc)
next
  case (Suc k)
  let ?a = "map (\<lambda>j. w ! origin m k j) [0..<Suc m]"
  have la: "length ?a = Suc m" by simp
  have "next_round_arr ?a = map (\<lambda>j. w ! origin m (Suc k) j) [0..<Suc m]"
  proof (rule nth_equalityI)
    show "length (next_round_arr ?a) = length (map (\<lambda>j. w ! origin m (Suc k) j) [0..<Suc m])"
      using assms(2) by (simp add: length_next_round_arr del: upt_Suc)
  next
    fix j assume "j < length (next_round_arr ?a)"
    then have j: "j \<le> m" using assms(2) by (simp add: length_next_round_arr del: upt_Suc)
    have nth: "\<And>i. i \<le> m \<Longrightarrow> ?a ! i = w ! origin m k i"
      by (simp add: less_Suc_eq_le del: upt_Suc)
    consider "j = 0" | "j = 1" | "2 \<le> j" by linarith
    then show "next_round_arr ?a ! j = map (\<lambda>j. w ! origin m (Suc k) j) [0..<Suc m] ! j"
    proof cases
      case 1
      then show ?thesis
        using nth_next_round_arr [OF la assms(2) j] nth [of 0] by (simp del: upt_Suc)
    next
      case 2
      then show ?thesis
        using nth_next_round_arr [OF la assms(2) j] nth [of m] assms(2) j
        by (simp add: origin_Suc_1 less_Suc_eq_le del: upt_Suc)
    next
      case 3
      then show ?thesis
        using nth_next_round_arr [OF la assms(2) j] nth [of "j - 1"] j
        by (simp add: origin_Suc_shift assms(2) less_Suc_eq_le del: upt_Suc)
    qed
  qed
  with Suc show ?case by simp
qed


lemma mod_eq_small:
  fixes a b m :: int
  assumes "a mod m = b mod m" and "\<bar>a - b\<bar> < m"
  shows "a = b"
proof -
  from assms(1) have "m dvd a - b" by (simp add: mod_eq_dvd_iff)
  with assms(2) have "a - b = 0"
    by (meson dvd_imp_le_int abs_ge_zero not_le order.trans abs_ge_self zdvd_not_zless
          zero_less_abs_iff dvd_abs_iff)
  then show ?thesis by simp
qed

lemma odd_cancel2:
  fixes a b m :: int
  assumes "odd m" and "(2 * a) mod m = (2 * b) mod m"
  shows "a mod m = b mod m"
proof -
  from assms(2) have "m dvd 2 * a - 2 * b" by (simp add: mod_eq_dvd_iff)
  then have "m dvd (a - b) * 2" by (simp add: algebra_simps)
  moreover have "coprime m 2" using assms(1) by simp
  ultimately have "m dvd a - b" using coprime_dvd_mult_left_iff [of m 2 "a - b"] by blast
  then show ?thesis by (simp add: mod_eq_dvd_iff)
qed

lemma origin_int:
  assumes "0 < m" and "0 < j"
  shows "int (origin m k j) = 1 + (int j - 1 - int k) mod int m"
proof -
  have e: "int (k * (m - 1) + (j - 1)) = int k * (int m - 1) + (int j - 1)"
    using assms by (simp add: of_nat_diff Suc_leI)
  have "int ((k * (m - 1) + (j - 1)) mod m) = (int k * (int m - 1) + (int j - 1)) mod int m"
    by (simp only: zmod_int e)
  also have "int k * (int m - 1) + (int j - 1) = (int j - 1 - int k) + int k * int m"
    by (simp add: algebra_simps)
  also have "\<dots> mod int m = (int j - 1 - int k) mod int m" by simp
  finally show ?thesis using assms by (simp add: origin_def)
qed

lemma origin_pos: "0 < j \<Longrightarrow> 0 < origin m k j"
  by (simp add: origin_def)

lemma origin_inj:
  assumes m: "0 < m" and "i \<le> m" "j \<le> m" and eq: "origin m k i = origin m k j"
  shows "i = j"
proof (cases "i = 0 \<or> j = 0")
  case True
  show ?thesis
  proof (rule ccontr)
    assume "i \<noteq> j"
    with True have "(i = 0 \<and> 0 < j) \<or> (j = 0 \<and> 0 < i)" by auto
    then show False using eq origin_pos [of i m k] origin_pos [of j m k] by auto
  qed
next
  case False
  then have pos: "0 < i" "0 < j" by auto
  from eq have "int (origin m k i) = int (origin m k j)" by simp
  then have "(int i - 1 - int k) mod int m = (int j - 1 - int k) mod int m"
    by (simp add: origin_int m pos)
  moreover have "\<bar>(int i - 1 - int k) - (int j - 1 - int k)\<bar> < int m"
    using assms(2,3) pos by linarith
  ultimately have "int i - 1 - int k = int j - 1 - int k" by (rule mod_eq_small)
  then show ?thesis by simp
qed


lemma dvd_small:
  fixes x m :: int
  assumes "m dvd x" and "\<bar>x\<bar> < m"
  shows "x = 0"
  using assms mod_eq_small [of x m 0] by (simp add: mod_eq_0_iff_dvd)

lemma odd_dvd_double:
  fixes x m :: int
  assumes "odd m" and "m dvd 2 * x"
  shows "m dvd x"
proof -
  have "coprime m 2" using assms(1) by simp
  moreover have "m dvd x * 2" using assms(2) by (simp add: mult.commute)
  ultimately show ?thesis using coprime_dvd_mult_left_iff [of m 2 x] by blast
qed

lemma slot_unique:
  assumes odd: "odd m"
    and k: "k < m" "k' < m"
    and i: "i < Suc m div 2" "i' < Suc m div 2"
    and eq: "{origin m k i, origin m k (m - i)} = {origin m k' i', origin m k' (m - i')}"
  shows "k = k' \<and> i = i'"
proof -
  from k have m: "0 < m" by simp
  from odd i have i2: "2 * i < m" "2 * i' < m" by (auto elim!: oddE)
  then have mi: "0 < m - i" "0 < m - i'" by simp_all
  have oddm: "odd (int m)" using odd by simp
  have zero_imp: "j' = 0"
    if "{0, x} = {origin m q j', origin m q (m - j')}" and "0 < m - j'" for x q j'
  proof -
    from that(1) have "0 \<in> {origin m q j', origin m q (m - j')}" by (metis insertI1)
    then have "origin m q j' = 0 \<or> origin m q (m - j') = 0" by auto
    with origin_pos [OF that(2), of m q] have "origin m q j' = 0" by auto
    with origin_pos [of j' m q] show ?thesis by auto
  qed
  have zero_iff: "i = 0 \<longleftrightarrow> i' = 0"
  proof
    assume "i = 0"
    with eq have "{0, origin m k m} = {origin m k' i', origin m k' (m - i')}" by simp
    then show "i' = 0" using mi(2) by (rule zero_imp)
  next
    assume "i' = 0"
    with eq have "{0, origin m k' m} = {origin m k i, origin m k (m - i)}" by simp
    then show "i = 0" using mi(1) by (rule zero_imp)
  qed
  show ?thesis
  proof (cases "i = 0")
    case True
    with zero_iff have z: "i = 0" "i' = 0" by simp_all
    with eq have "{0, origin m k m} = {0, origin m k' m}" by simp
    moreover have "origin m k m \<noteq> 0" "origin m k' m \<noteq> 0"
      using origin_pos [OF m, of m] by simp_all
    ultimately have "origin m k m = origin m k' m" by (auto simp: doubleton_eq_iff)
    then have "int (origin m k m) = int (origin m k' m)" by simp
    then have "(int m - 1 - int k) mod int m = (int m - 1 - int k') mod int m"
      by (simp add: origin_int m)
    moreover have "\<bar>(int m - 1 - int k) - (int m - 1 - int k')\<bar> < int m"
      using k by linarith
    ultimately have "int m - 1 - int k = int m - 1 - int k'" by (rule mod_eq_small)
    with z show ?thesis by simp
  next
    case False
    with zero_iff have pos: "0 < i" "0 < i'" by simp_all
    define a b a' b' where "a = (int i - 1 - int k) mod int m"
      and "b = (int (m - i) - 1 - int k) mod int m"
      and "a' = (int i' - 1 - int k') mod int m"
      and "b' = (int (m - i') - 1 - int k') mod int m"
    have o: "int (origin m k i) = 1 + a" "int (origin m k (m - i)) = 1 + b"
      "int (origin m k' i') = 1 + a'" "int (origin m k' (m - i')) = 1 + b'"
      unfolding a_def b_def a'_def b'_def
      by (rule origin_int [OF m pos(1)], rule origin_int [OF m mi(1)],
          rule origin_int [OF m pos(2)], rule origin_int [OF m mi(2)])
    from eq have "int ` {origin m k i, origin m k (m - i)}
                = int ` {origin m k' i', origin m k' (m - i')}" by simp
    then have "{1 + a, 1 + b} = {1 + a', 1 + b'}" by (simp add: o)
    then have alt: "(a = a' \<and> b = b') \<or> (a = b' \<and> b = a')"
      by (auto simp: doubleton_eq_iff)
    have mi_int: "int (m - i) = int m - int i" "int (m - i') = int m - int i'"
      using i2 by simp_all
    from alt show ?thesis
    proof
      assume "a = a' \<and> b = b'"
      then have d1: "int m dvd (int i - 1 - int k) - (int i' - 1 - int k')"
        and d2: "int m dvd (int m - int i - 1 - int k) - (int m - int i' - 1 - int k')"
        by (simp_all add: a_def a'_def b_def b'_def mod_eq_dvd_iff mi_int)
      from dvd_add [OF d1 d2] have "int m dvd 2 * (int k' - int k)"
        by (simp add: algebra_simps)
      then have "int m dvd int k' - int k" by (rule odd_dvd_double [OF oddm])
      moreover have "\<bar>int k' - int k\<bar> < int m" using k by linarith
      ultimately have "int k' - int k = 0" by (rule dvd_small)
      then have kk: "k = k'" by simp
      with d1 have "int m dvd int i - int i'" by (simp add: algebra_simps)
      moreover have "\<bar>int i - int i'\<bar> < int m" using i2 by linarith
      ultimately have "int i - int i' = 0" by (rule dvd_small)
      with kk show ?thesis by simp
    next
      assume "a = b' \<and> b = a'"
      then have d1: "int m dvd (int i - 1 - int k) - (int m - int i' - 1 - int k')"
        and d2: "int m dvd (int m - int i - 1 - int k) - (int i' - 1 - int k')"
        by (simp_all add: a_def a'_def b_def b'_def mod_eq_dvd_iff mi_int)
      from dvd_add [OF d1 d2] have "int m dvd 2 * (int k' - int k)"
        by (simp add: algebra_simps)
      then have "int m dvd int k' - int k" by (rule odd_dvd_double [OF oddm])
      moreover have "\<bar>int k' - int k\<bar> < int m" using k by linarith
      ultimately have "int k' - int k = 0" by (rule dvd_small)
      then have kk: "int k = int k'" by simp
      from d1 have "int m dvd (int i + int i') - int m" unfolding kk
        by (simp add: algebra_simps)
      then have "int m dvd int i + int i'"
        using dvd_add [of "int m" "(int i + int i') - int m" "int m"] by simp
      moreover have "\<bar>int i + int i'\<bar> < int m" using i2 by linarith
      ultimately have "int i + int i' = 0" by (rule dvd_small)
      with pos show ?thesis by simp
    qed
  qed
qed


lemma even_length_working_list: "even (length (working_list ts))"
  by (simp add: working_list_def)

lemma working_list_ge2: "ts \<noteq> [] \<Longrightarrow> 2 \<le> length (working_list ts)"
proof -
  assume "ts \<noteq> []"
  then have "1 \<le> length (working_list ts)"
    by (cases ts) (simp_all add: working_list_def)
  moreover have "length (working_list ts) \<noteq> 1"
    using even_length_working_list [of ts] by auto
  ultimately show ?thesis by linarith
qed

lemma length_arr_of_round:
  "ts \<noteq> [] \<Longrightarrow> length (arr_of_round ts r) = length (working_list ts)"
  by (simp add: arr_of_round_def length_funpow_next_round_arr working_list_ge2)

lemma schedule_rows_single:
  "schedule_rows tid ts False
     = concat (map (fixtures_of_round tid ts) [1..<length (working_list ts)])"
proof (cases "ts = []")
  case True
  then show ?thesis
    by (simp add: schedule_rows_def working_list_def round_loop.simps)
next
  case False
  let ?n = "length (working_list ts)"
  from False have n: "2 \<le> ?n" by (rule working_list_ge2)
  have w: "(if length ts mod 2 = 1 then ts @ [BYE] else ts) = working_list ts"
    by (simp add: working_list_def odd_iff_mod_2_eq_one)
  have "schedule_rows tid ts False = round_loop tid ?n (?n - 1) (?n div 2) 1 (working_list ts)"
    unfolding schedule_rows_def Let_def w by simp
  also have "\<dots> = concat (map (\<lambda>q. pair_loop tid ?n (?n div 2) q (arr_of_round ts q) 0)
                          [1..<Suc (?n - 1)])"
    by (simp only: round_loop_eq arr_of_round_def)
  also have "Suc (?n - 1) = ?n" using n by simp
  also have "map (\<lambda>q. pair_loop tid ?n (?n div 2) q (arr_of_round ts q) 0) [1..<?n]
           = map (fixtures_of_round tid ts) [1..<?n]"
    by (simp add: pair_loop_eq fixtures_of_round_def paired_positions_def
                  length_arr_of_round [OF False])
  finally show ?thesis .
qed

lemma schedule_rows_double:
  "schedule_rows tid ts True
     = schedule_rows tid ts False
       @ map (mirrored (length (working_list ts) - 1)) (schedule_rows tid ts False)"
proof -
  have w: "(if length ts mod 2 = 1 then ts @ [BYE] else ts) = working_list ts"
    by (simp add: working_list_def odd_iff_mod_2_eq_one)
  have "mirrored (length (working_list ts) - 1)
      = (\<lambda>m. \<lparr> sr_tournament_id = sr_tournament_id m,
                sr_round = sr_round m + (length (working_list ts) - 1),
                sr_home_team_id = sr_away_team_id m,
                sr_away_team_id = sr_home_team_id m \<rparr>)"
    by (rule ext) (simp add: mirrored_def)
  then show ?thesis
    unfolding schedule_rows_def Let_def w by simp
qed


lemma paired_positions_round:
  assumes "ts \<noteq> []" and len: "length (working_list ts) = Suc m"
  shows "paired_positions (arr_of_round ts (Suc k))
       = map (\<lambda>i. (working_list ts ! origin m k i, working_list ts ! origin m k (m - i)))
           [0..<Suc m div 2]"
proof -
  let ?w = "working_list ts"
  from working_list_ge2 [OF assms(1)] len have m: "1 \<le> m" by simp
  have arr: "arr_of_round ts (Suc k) = map (\<lambda>j. ?w ! origin m k j) [0..<Suc m]"
    by (simp add: arr_of_round_def funpow_next_round_arr [OF len m] del: upt_Suc)
  show ?thesis
    unfolding paired_positions_def arr
    by (rule map_cong) (auto simp: less_Suc_eq_le simp del: upt_Suc)
qed

lemma sides_fixture_of [simp]: "sides (fixture_of tid r p) = {fst p, snd p}"
  by (auto simp: sides_def fixture_of_def)

lemma sides_round:
  assumes "ts \<noteq> []" and len: "length (working_list ts) = Suc m"
  shows "map sides (fixtures_of_round tid ts (Suc k))
       = filter (\<lambda>s. BYE \<notin> s) (map (meeting (working_list ts) m k) [0..<Suc m div 2])"
proof -
  have m: "meeting (working_list ts) m k
         = (\<lambda>i. {working_list ts ! origin m k i, working_list ts ! origin m k (m - i)})"
    by (rule ext) (simp add: meeting_def)
  have f: "(\<lambda>x. BYE \<noteq> working_list ts ! origin m k x
                \<and> BYE \<noteq> working_list ts ! origin m k (m - x))
         = (\<lambda>x. working_list ts ! origin m k x \<noteq> BYE
                \<and> working_list ts ! origin m k (m - x) \<noteq> BYE)"
    by (rule ext) auto
  show ?thesis
    unfolding fixtures_of_round_def paired_positions_round [OF assms] m
    by (simp add: filter_map o_def f del: upt_Suc)
qed

lemma sides_schedule:
  assumes "ts \<noteq> []" and len: "length (working_list ts) = Suc m"
  shows "map sides (schedule_rows tid ts False)
       = filter (\<lambda>s. BYE \<notin> s) (all_meetings (working_list ts) m)"
proof -
  have "[1..<Suc m] = map Suc [0..<m]" by (simp add: map_Suc_upt del: upt_Suc)
  then have "schedule_rows tid ts False
      = concat (map (\<lambda>k. fixtures_of_round tid ts (Suc k)) [0..<m])"
    by (simp add: schedule_rows_single len o_def del: upt_Suc)
  then show ?thesis
    by (simp add: map_concat filter_concat o_def sides_round [OF assms] all_meetings_def
             del: upt_Suc)
qed


lemma concat_map_product:
  "concat (map (\<lambda>k. map (f k) is) ks) = map (\<lambda>(k, i). f k i) (List.product ks is)"
  by (induction ks) (simp_all add: o_def)

lemma slot_positions:
  assumes "odd m" and "i < Suc m div 2"
  shows "origin m k i \<le> m" and "origin m k (m - i) \<le> m"
    and "origin m k i \<noteq> origin m k (m - i)"
proof -
  from assms have m: "0 < m" and i2: "2 * i < m" by (auto elim!: oddE)
  then have m1: "1 \<le> m" by simp
  show "origin m k i \<le> m" "origin m k (m - i) \<le> m"
    by (rule origin_le [OF m1])+
  show "origin m k i \<noteq> origin m k (m - i)"
  proof
    assume "origin m k i = origin m k (m - i)"
    then have "i = m - i" using i2 by (intro origin_inj [OF m, of i "m - i" k]) simp_all
    with i2 show False by simp
  qed
qed

lemma meeting_index_image:
  "meeting w m k i = (nth w) ` {origin m k i, origin m k (m - i)}"
  by (simp add: meeting_def)

lemma distinct_all_meetings:
  assumes "distinct w" and len: "length w = Suc m" and odd: "odd m"
  shows "distinct (all_meetings w m)"
proof -
  let ?P = "List.product [0..<m] [0..<Suc m div 2]"
  have inj_nth: "inj_on (nth w) {0..m}"
    using assms(1) len by (intro inj_on_nth) auto
  have "inj_on (\<lambda>(k, i). meeting w m k i) (set ?P)"
  proof (rule inj_onI, clarify)
    fix k i k' i'
    assume ki: "(k, i) \<in> set ?P" and ki': "(k', i') \<in> set ?P"
      and eq: "meeting w m k i = meeting w m k' i'"
    then have k: "k < m" "k' < m" and i: "i < Suc m div 2" "i' < Suc m div 2" by auto
    have sub: "{origin m k i, origin m k (m - i)} \<subseteq> {0..m}"
      "{origin m k' i', origin m k' (m - i')} \<subseteq> {0..m}"
      using slot_positions(1,2) [OF odd i(1)] slot_positions(1,2) [OF odd i(2)] by auto
    from eq have "{origin m k i, origin m k (m - i)} = {origin m k' i', origin m k' (m - i')}"
      unfolding meeting_index_image
      by (simp only: inj_on_image_eq_iff [OF inj_nth sub])
    then show "k = k' \<and> i = i'" by (rule slot_unique [OF odd k i])
  qed
  moreover have "distinct ?P" by (simp add: distinct_product)
  ultimately show ?thesis
    unfolding all_meetings_def concat_map_product by (simp add: distinct_map)
qed

lemma length_all_meetings: "length (all_meetings w m) = m * (Suc m div 2)"
  unfolding all_meetings_def concat_map_product by simp

lemma meeting_two_subset:
  assumes "distinct w" and len: "length w = Suc m" and odd: "odd m"
    and "k < m" and i: "i < Suc m div 2"
  shows "meeting w m k i \<subseteq> set w \<and> card (meeting w m k i) = 2"
proof -
  note p = slot_positions [OF odd i, of k]
  from p(1,2) len have lt: "origin m k i < length w" "origin m k (m - i) < length w" by simp_all
  then have "w ! origin m k i \<noteq> w ! origin m k (m - i)"
    using assms(1) p(3) by (simp add: nth_eq_iff_index_eq)
  with lt show ?thesis by (simp add: meeting_def)
qed

lemma set_all_meetings:
  assumes "distinct w" and len: "length w = Suc m" and odd: "odd m"
  shows "set (all_meetings w m) = {s. s \<subseteq> set w \<and> card s = 2}"
proof (rule card_subset_eq)
  show "finite {s. s \<subseteq> set w \<and> card s = 2}" by simp
  show "set (all_meetings w m) \<subseteq> {s. s \<subseteq> set w \<and> card s = 2}"
  proof
    fix s assume "s \<in> set (all_meetings w m)"
    then obtain k i where "k < m" "i < Suc m div 2" "s = meeting w m k i"
      by (auto simp: all_meetings_def)
    with meeting_two_subset [OF assms, of k i] show "s \<in> {s. s \<subseteq> set w \<and> card s = 2}"
      by simp
  qed
  have "card (set (all_meetings w m)) = m * (Suc m div 2)"
    using distinct_all_meetings [OF assms] by (simp add: distinct_card length_all_meetings)
  moreover have "card {s. s \<subseteq> set w \<and> card s = 2} = Suc m choose 2"
    using n_subsets [of "set w" 2] assms(1) len by (simp add: distinct_card)
  moreover have "Suc m choose 2 = m * (Suc m div 2)"
  proof -
    from odd obtain q where "m = 2 * q + 1" by (auto elim!: oddE)
    then show ?thesis by (simp add: choose_two)
  qed
  ultimately show "card (set (all_meetings w m)) = card {s. s \<subseteq> set w \<and> card s = 2}"
    by simp
qed


lemma working_list_props:
  assumes "2 \<le> length ts" and "distinct ts" and "BYE \<notin> set ts"
  obtains m where "length (working_list ts) = Suc m" and "odd m" and "1 \<le> m"
    and "distinct (working_list ts)" and "ts \<noteq> []" and "set ts \<subseteq> set (working_list ts)"
proof -
  from assms(1) have ne: "ts \<noteq> []" by auto
  from working_list_ge2 [OF ne] obtain m where len: "length (working_list ts) = Suc m"
    by (cases "length (working_list ts)") auto
  with even_length_working_list [of ts] have "odd m" by simp
  moreover from len working_list_ge2 [OF ne] have "1 \<le> m" by simp
  moreover have "distinct (working_list ts)" using assms(2,3) by (simp add: working_list_def)
  moreover have "set ts \<subseteq> set (working_list ts)" by (auto simp: working_list_def)
  ultimately show thesis using that len ne by blast
qed

lemma count_by_key:
  "distinct (map f xs) \<Longrightarrow> y \<in> set (map f xs) \<Longrightarrow> length (filter (\<lambda>x. f x = y) xs) = 1"
proof (induction xs)
  case Nil
  then show ?case by simp
next
  case (Cons x xs)
  show ?case
  proof (cases "f x = y")
    case True
    with Cons.prems have "y \<notin> f ` set xs" by simp
    then have "\<forall>z \<in> set xs. f z \<noteq> y" by (metis imageI)
    then have "filter (\<lambda>x. f x = y) xs = []" by (simp add: filter_empty_conv)
    with True show ?thesis by simp
  next
    case False
    with Cons show ?thesis by auto
  qed
qed

lemma distinct_sides_schedule:
  assumes "2 \<le> length ts" and "distinct ts" and "BYE \<notin> set ts"
  shows "distinct (map sides (schedule_rows tid ts False))"
proof -
  from assms obtain m where m: "length (working_list ts) = Suc m" "odd m"
    "distinct (working_list ts)" "ts \<noteq> []"
    by (rule working_list_props)
  show ?thesis
    unfolding sides_schedule [OF m(4) m(1)]
    by (rule distinct_filter) (rule distinct_all_meetings [OF m(3) m(1) m(2)])
qed

lemma pair_in_schedule:
  assumes "2 \<le> length ts" and "distinct ts" and "BYE \<notin> set ts"
    and "a \<in> set ts" "b \<in> set ts" "a \<noteq> b"
  shows "{a, b} \<in> set (map sides (schedule_rows tid ts False))"
proof -
  from assms(1-3) obtain m where m: "length (working_list ts) = Suc m" "odd m"
    "distinct (working_list ts)" "ts \<noteq> []" "set ts \<subseteq> set (working_list ts)"
    by (rule working_list_props)
  have "{a, b} \<subseteq> set (working_list ts) \<and> card {a, b} = 2"
    using assms(4-6) m(5) by auto
  then have "{a, b} \<in> set (all_meetings (working_list ts) m)"
    by (simp add: set_all_meetings [OF m(3) m(1) m(2)])
  moreover have "BYE \<notin> {a, b}" using assms(3-5) by auto
  ultimately show ?thesis
    unfolding sides_schedule [OF m(4) m(1)] by simp
qed

lemma sides_in_schedule:
  assumes "2 \<le> length ts" and "distinct ts" and "BYE \<notin> set ts"
    and "x \<in> set (schedule_rows tid ts False)"
  shows "BYE \<notin> sides x" and "sides x \<subseteq> set ts" and "card (sides x) = 2"
proof -
  from assms(1-3) obtain m where m: "length (working_list ts) = Suc m" "odd m"
    "distinct (working_list ts)" "ts \<noteq> []"
    by (rule working_list_props)
  from assms(4) have "sides x \<in> set (map sides (schedule_rows tid ts False))" by simp
  then have mem: "sides x \<in> set (all_meetings (working_list ts) m)" and nb: "BYE \<notin> sides x"
    unfolding sides_schedule [OF m(4) m(1)] by simp_all
  from mem have "sides x \<subseteq> set (working_list ts)" and c: "card (sides x) = 2"
    by (simp_all add: set_all_meetings [OF m(3) m(1) m(2)])
  with nb show "BYE \<notin> sides x" "sides x \<subseteq> set ts" "card (sides x) = 2"
    by (auto simp: working_list_def split: if_splits)
qed


lemma some_real_meeting:
  assumes "2 \<le> length ts" and "distinct ts" and "BYE \<notin> set ts"
    and len: "length (working_list ts) = Suc m" and "k < m"
  shows "\<exists>i < Suc m div 2. BYE \<notin> meeting (working_list ts) m k i"
proof -
  let ?w = "working_list ts"
  from assms(1-3) obtain m' where "length ?w = Suc m'" and o: "odd m'" and "1 \<le> m'"
    and dw: "distinct ?w"
    by (rule working_list_props)
  with len have odd: "odd m" and m1: "1 \<le> m" by simp_all
  then have h0: "0 < Suc m div 2" by (auto elim!: oddE)
  show ?thesis
  proof (cases "odd (length ts)")
    case False
    then have "BYE \<notin> set ?w" using assms(3) by (simp add: working_list_def)
    moreover have "meeting ?w m k 0 \<subseteq> set ?w"
      using meeting_two_subset [OF dw len odd assms(5) h0] by simp
    ultimately have "BYE \<notin> meeting ?w m k 0" by auto
    with h0 show ?thesis by blast
  next
    case True
    then have w: "?w = ts @ [BYE]" by (simp add: working_list_def)
    with len have lts: "length ts = m" by simp
    with True assms(1) have m3: "3 \<le> m" by (auto elim!: oddE)
    then have h1: "1 < Suc m div 2" by linarith
    have bye_at: "p = m" if "p \<le> m" "?w ! p = BYE" for p
    proof (rule ccontr)
      assume "p \<noteq> m"
      with that(1) lts have "p < length ts" by simp
      then have "?w ! p \<in> set ts" by (simp add: w nth_append)
      with that(2) assms(3) show False by simp
    qed
    note p0 = slot_positions [OF odd h0, of k]
    note p1 = slot_positions [OF odd h1, of k]
    show ?thesis
    proof (cases "BYE \<in> meeting ?w m k 0")
      case False
      with h0 show ?thesis by blast
    next
      case True
      then have "?w ! 0 = BYE \<or> ?w ! origin m k m = BYE" by (auto simp: meeting_def)
      moreover have "?w ! 0 \<noteq> BYE" using bye_at [of 0] m3 by auto
      ultimately have om: "origin m k m = m" using bye_at [OF p0(2)] by simp
      have "BYE \<notin> meeting ?w m k 1"
      proof
        assume "BYE \<in> meeting ?w m k 1"
        then have "?w ! origin m k 1 = BYE \<or> ?w ! origin m k (m - 1) = BYE"
          by (auto simp: meeting_def)
        then have "origin m k 1 = origin m k m \<or> origin m k (m - 1) = origin m k m"
          using bye_at [OF p1(1)] bye_at [OF p1(2)] om by auto
        then have "1 = m \<or> m - 1 = m"
          using origin_inj [of m 1 m k] origin_inj [of m "m - 1" m k] m3 by auto
        with m3 show False by simp
      qed
      with h1 show ?thesis by blast
    qed
  qed
qed

lemma sr_round_fixtures_of_round:
  "x \<in> set (fixtures_of_round tid ts r) \<Longrightarrow> sr_round x = r"
  by (auto simp: fixtures_of_round_def fixture_of_def)

lemma fixtures_of_round_nonempty:
  assumes "2 \<le> length ts" and "distinct ts" and "BYE \<notin> set ts"
    and len: "length (working_list ts) = Suc m" and k: "k < m"
  shows "fixtures_of_round tid ts (Suc k) \<noteq> []"
proof -
  from assms(1) have ne: "ts \<noteq> []" by auto
  from some_real_meeting [OF assms] obtain i where "i < Suc m div 2"
    and "BYE \<notin> meeting (working_list ts) m k i" by blast
  then have "filter (\<lambda>s. BYE \<notin> s) (map (meeting (working_list ts) m k) [0..<Suc m div 2]) \<noteq> []"
    by (auto simp: filter_empty_conv simp del: upt_Suc)
  then have "map sides (fixtures_of_round tid ts (Suc k)) \<noteq> []"
    unfolding sides_round [OF ne len] .
  then show ?thesis by simp
qed

lemma rounds_of_schedule:
  assumes "2 \<le> length ts" and "distinct ts" and "BYE \<notin> set ts"
  shows "sr_round ` set (schedule_rows tid ts False) = {1..length (working_list ts) - 1}"
proof -
  from assms obtain m where len: "length (working_list ts) = Suc m"
    by (rule working_list_props)
  have rows: "set (schedule_rows tid ts False)
      = (\<Union>r \<in> {1..<Suc m}. set (fixtures_of_round tid ts r))"
    by (simp add: schedule_rows_single len del: upt_Suc)
  show ?thesis
  proof (intro equalityI subsetI)
    fix r assume "r \<in> sr_round ` set (schedule_rows tid ts False)"
    then show "r \<in> {1..length (working_list ts) - 1}"
      unfolding rows len by (auto dest: sr_round_fixtures_of_round)
  next
    fix r assume "r \<in> {1..length (working_list ts) - 1}"
    then obtain k where r: "r = Suc k" and k: "k < m"
      unfolding len by (cases r) auto
    from fixtures_of_round_nonempty [OF assms len k, of tid]
    obtain x where x: "x \<in> set (fixtures_of_round tid ts (Suc k))"
      by (cases "fixtures_of_round tid ts (Suc k)") auto
    then have "sr_round x = r" unfolding r by (rule sr_round_fixtures_of_round)
    moreover have "x \<in> set (schedule_rows tid ts False)"
      unfolding rows using x k by (auto simp: r)
    ultimately show "r \<in> sr_round ` set (schedule_rows tid ts False)" by blast
  qed
qed

lemma arr_of_round_rotation:
  assumes "ts \<noteq> []" and "1 \<le> r" and "j < length (working_list ts)"
  shows "arr_of_round ts (Suc r) ! j =
     (if j = 0 then arr_of_round ts r ! 0
      else if j = 1 then arr_of_round ts r ! (length (working_list ts) - 1)
      else arr_of_round ts r ! (j - 1))"
proof -
  from working_list_ge2 [OF assms(1)] obtain m where len: "length (working_list ts) = Suc m"
    and m: "1 \<le> m"
    by (cases "length (working_list ts)") auto
  from assms(2) obtain r' where "r = Suc r'" by (cases r) auto
  then have step: "arr_of_round ts (Suc r) = next_round_arr (arr_of_round ts r)"
    by (simp add: arr_of_round_def)
  have la: "length (arr_of_round ts r) = Suc m"
    by (simp add: length_arr_of_round [OF assms(1)] len)
  from assms(3) len have "j \<le> m" by simp
  from nth_next_round_arr [OF la m this] show ?thesis
    unfolding step len by simp
qed


lemma arr_of_round_1: "arr_of_round ts 1 = working_list ts"
  by (simp add: arr_of_round_def)

lemma mirrored_inj: "mirrored off f = mirrored off g \<Longrightarrow> f = g"
  by (cases f; cases g) (simp add: mirrored_def)

lemma distinct_schedule:
  assumes "2 \<le> length ts" and "distinct ts" and "BYE \<notin> set ts"
  shows "distinct (schedule_rows tid ts False)"
  using distinct_sides_schedule [OF assms, of tid] by (simp add: distinct_map)

text \<open>
  C1. For a list \<open>ts\<close> of at least two distinct team ids, none of them the bye marker,
  and \<open>double = false\<close>: the working list has \<open>N' = N\<close> elements for even \<open>N\<close> and
  \<open>N + 1\<close> (one bye appended) for odd \<open>N\<close>; the first round uses the working list as
  it is and after each round position 0 stays, the last element becomes second and the
  others move one step; the schedule is, round after round for the rounds 1 to
  \<open>N' - 1\<close>, the fixtures pairing position \<open>i\<close> with position \<open>N' - 1 - i\<close> without the
  pairs that hold the bye; every one of these rounds has a fixture; every unordered pair
  of teams is in exactly one fixture; and no fixture has the bye marker on either side.
\<close>

theorem round_robin_single_leg:
  assumes "2 \<le> length ts" and "distinct ts" and "BYE \<notin> set ts"
  shows
   "length (working_list ts) = (if even (length ts) then length ts else length ts + 1)
  \<and> arr_of_round ts 1 = working_list ts
  \<and> (\<forall>r j. 1 \<le> r \<and> j < length (working_list ts) \<longrightarrow>
        arr_of_round ts (Suc r) ! j =
          (if j = 0 then arr_of_round ts r ! 0
           else if j = 1 then arr_of_round ts r ! (length (working_list ts) - 1)
           else arr_of_round ts r ! (j - 1)))
  \<and> schedule_rows tid ts False
      = concat (map (fixtures_of_round tid ts) [1..<length (working_list ts)])
  \<and> sr_round ` set (schedule_rows tid ts False) = {1..length (working_list ts) - 1}
  \<and> (\<forall>a \<in> set ts. \<forall>b \<in> set ts. a \<noteq> b \<longrightarrow>
        length (filter (\<lambda>x. sides x = {a, b}) (schedule_rows tid ts False)) = 1)
  \<and> (\<forall>x \<in> set (schedule_rows tid ts False).
        sr_home_team_id x \<noteq> BYE \<and> sr_away_team_id x \<noteq> BYE
        \<and> sr_home_team_id x \<in> set ts \<and> sr_away_team_id x \<in> set ts
        \<and> sr_home_team_id x \<noteq> sr_away_team_id x)"
proof (intro conjI allI impI ballI)
  show "length (working_list ts) = (if even (length ts) then length ts else length ts + 1)"
    by (simp add: working_list_def)
  show "arr_of_round ts 1 = working_list ts" by (rule arr_of_round_1)
  show "schedule_rows tid ts False
      = concat (map (fixtures_of_round tid ts) [1..<length (working_list ts)])"
    by (rule schedule_rows_single)
  show "sr_round ` set (schedule_rows tid ts False) = {1..length (working_list ts) - 1}"
    by (rule rounds_of_schedule [OF assms])
next
  fix r j :: nat assume "1 \<le> r \<and> j < length (working_list ts)"
  moreover from assms(1) have "ts \<noteq> []" by auto
  ultimately show "arr_of_round ts (Suc r) ! j =
          (if j = 0 then arr_of_round ts r ! 0
           else if j = 1 then arr_of_round ts r ! (length (working_list ts) - 1)
           else arr_of_round ts r ! (j - 1))"
    by (intro arr_of_round_rotation) simp_all
next
  fix a b assume "a \<in> set ts" "b \<in> set ts" "a \<noteq> b"
  then have "{a, b} \<in> set (map sides (schedule_rows tid ts False))"
    by (rule pair_in_schedule [OF assms])
  with distinct_sides_schedule [OF assms, of tid]
  show "length (filter (\<lambda>x. sides x = {a, b}) (schedule_rows tid ts False)) = 1"
    by (rule count_by_key)
next
  fix x assume x: "x \<in> set (schedule_rows tid ts False)"
  note s = sides_in_schedule [OF assms x]
  from s(1) show "sr_home_team_id x \<noteq> BYE" "sr_away_team_id x \<noteq> BYE"
    by (auto simp: sides_def)
  from s(2) show "sr_home_team_id x \<in> set ts" "sr_away_team_id x \<in> set ts"
    by (auto simp: sides_def)
  from s(3) show "sr_home_team_id x \<noteq> sr_away_team_id x"
    by (auto simp: sides_def)
qed

text \<open>
  C9. For the same team lists and \<open>double = true\<close> the schedule is the single schedule
  followed by its mirror image with the round numbers raised by \<open>N' - 1\<close>: the rounds up
  to \<open>N' - 1\<close> are the first leg, the later ones the second leg; for every first-leg
  fixture (round \<open>r\<close>, home, away) exactly one second-leg fixture is
  (\<open>r + N' - 1\<close>, away, home), and every second-leg fixture is the mirror image of
  exactly one first-leg fixture.
\<close>

theorem double_leg_mirror:
  fixes ts :: "string list" and tid :: string
  defines "off \<equiv> length (working_list ts) - 1"
  defines "first_leg \<equiv> schedule_rows tid ts False"
  defines "second_leg \<equiv> filter (\<lambda>g. off < sr_round g) (schedule_rows tid ts True)"
  assumes "2 \<le> length ts" and "distinct ts" and "BYE \<notin> set ts"
  shows
   "schedule_rows tid ts True = first_leg @ map (mirrored off) first_leg
  \<and> filter (\<lambda>g. sr_round g \<le> off) (schedule_rows tid ts True) = first_leg
  \<and> second_leg = map (mirrored off) first_leg
  \<and> (\<forall>f \<in> set first_leg. length (filter (\<lambda>g. g = mirrored off f) second_leg) = 1)
  \<and> (\<forall>g \<in> set second_leg. length (filter (\<lambda>f. mirrored off f = g) first_leg) = 1)"
proof -
  note hyps = assms(4-6)
  have dbl: "schedule_rows tid ts True = first_leg @ map (mirrored off) first_leg"
    unfolding first_leg_def off_def by (rule schedule_rows_double)
  have rounds: "1 \<le> sr_round f \<and> sr_round f \<le> off" if "f \<in> set first_leg" for f
  proof -
    from that have "sr_round f \<in> sr_round ` set (schedule_rows tid ts False)"
      unfolding first_leg_def by simp
    then show ?thesis unfolding rounds_of_schedule [OF hyps] off_def by simp
  qed
  have f1: "filter (\<lambda>g. sr_round g \<le> off) first_leg = first_leg"
    "filter (\<lambda>g. off < sr_round g) first_leg = []"
    using rounds by (auto simp: filter_empty_conv not_less)
  have pos: "\<forall>f \<in> set first_leg. 0 < sr_round f" using rounds by force
  then have all: "filter (\<lambda>x. 0 < sr_round x) first_leg = first_leg" by simp
  have m1: "filter (\<lambda>g. sr_round g \<le> off) (map (mirrored off) first_leg) = []"
    "filter (\<lambda>g. off < sr_round g) (map (mirrored off) first_leg) = map (mirrored off) first_leg"
    using pos by (auto simp: filter_empty_conv mirrored_def filter_map o_def all)
  have lo: "filter (\<lambda>g. sr_round g \<le> off) (schedule_rows tid ts True) = first_leg"
    unfolding dbl filter_append f1 m1 by simp
  have hi: "second_leg = map (mirrored off) first_leg"
    unfolding second_leg_def dbl filter_append f1 m1 by simp
  have d: "distinct first_leg"
    unfolding first_leg_def by (rule distinct_schedule [OF hyps])
  have dm: "distinct (map (mirrored off) first_leg)"
    using d by (simp add: distinct_map inj_on_def mirrored_inj)
  have c1: "length (filter (\<lambda>g. g = mirrored off f) second_leg) = 1"
    if "f \<in> set first_leg" for f
  proof -
    have "filter (\<lambda>g. g = mirrored off f) second_leg
        = map (mirrored off) (filter (\<lambda>x. mirrored off x = mirrored off f) first_leg)"
      unfolding hi by (simp add: filter_map o_def)
    moreover have "length (filter (\<lambda>x. mirrored off x = mirrored off f) first_leg) = 1"
      using dm that by (intro count_by_key) simp_all
    ultimately show ?thesis by simp
  qed
  have c2: "length (filter (\<lambda>f. mirrored off f = g) first_leg) = 1"
    if "g \<in> set second_leg" for g
    using dm that unfolding hi by (intro count_by_key)
  from dbl lo hi c1 c2 show ?thesis by blast
qed


theorem round_robin_single_leg_witness:
  "sr_round ` set (schedule_rows ''t'' [''A'', ''B'', ''C'', ''D''] False) = {1..3}
   \<and> length (filter (\<lambda>x. sides x = {''A'', ''C''})
                (schedule_rows ''t'' [''A'', ''B'', ''C'', ''D''] False)) = 1
   \<and> length (filter (\<lambda>x. sides x = {''D'', ''B''})
                (schedule_rows ''t'' [''A'', ''B'', ''C'', ''D''] False)) = 1"
proof -
  let ?ts = "[''A'', ''B'', ''C'', ''D'']"
  have h: "2 \<le> length ?ts" "distinct ?ts" "BYE \<notin> set ?ts"
    by (simp_all add: BYE_def)
  have n: "length (working_list ?ts) - 1 = 3" by (simp add: working_list_def)
  note t = round_robin_single_leg [OF h, of "''t''"]
  from t have r: "sr_round ` set (schedule_rows ''t'' ?ts False) = {1..3}"
    unfolding n by blast
  from t have c: "\<forall>a \<in> set ?ts. \<forall>b \<in> set ?ts. a \<noteq> b \<longrightarrow>
        length (filter (\<lambda>x. sides x = {a, b}) (schedule_rows ''t'' ?ts False)) = 1"
    by blast
  have "length (filter (\<lambda>x. sides x = {''A'', ''C''}) (schedule_rows ''t'' ?ts False)) = 1"
    using c [rule_format, of "''A''" "''C''"] by simp
  moreover
  have "length (filter (\<lambda>x. sides x = {''D'', ''B''}) (schedule_rows ''t'' ?ts False)) = 1"
    using c [rule_format, of "''D''" "''B''"] by simp
  ultimately show ?thesis using r by blast
qed

lemma four_team_schedule:
  "map (\<lambda>x. (sr_round x, sr_home_team_id x, sr_away_team_id x))
     (schedule_rows ''t'' [''A'', ''B'', ''C'', ''D''] False)
   = [(1, ''A'', ''D''), (1, ''B'', ''C''), (2, ''C'', ''A''),
      (2, ''B'', ''D''), (3, ''A'', ''B''), (3, ''C'', ''D'')]"
  by code_simp

theorem double_leg_mirror_witness:
  "schedule_rows ''t'' [''A'', ''B'', ''C''] True
     = schedule_rows ''t'' [''A'', ''B'', ''C''] False
       @ map (mirrored 3) (schedule_rows ''t'' [''A'', ''B'', ''C''] False)
   \<and> filter (\<lambda>g. 3 < sr_round g) (schedule_rows ''t'' [''A'', ''B'', ''C''] True)
     = map (mirrored 3) (schedule_rows ''t'' [''A'', ''B'', ''C''] False)"
proof -
  let ?ts = "[''A'', ''B'', ''C'']"
  have h: "2 \<le> length ?ts" "distinct ?ts" "BYE \<notin> set ?ts"
    by (simp_all add: BYE_def)
  have n: "length (working_list ?ts) - 1 = 3" by (simp add: working_list_def)
  from double_leg_mirror [OF h, of "''t''"] show ?thesis
    unfolding n by blast
qed

lemma three_team_double_schedule:
  "map (\<lambda>x. (sr_round x, sr_home_team_id x, sr_away_team_id x))
     (schedule_rows ''t'' [''A'', ''B'', ''C''] True)
   = [(1, ''B'', ''C''), (2, ''C'', ''A''), (3, ''A'', ''B''),
      (4, ''C'', ''B''), (5, ''A'', ''C''), (6, ''B'', ''A'')]"
  by code_simp

end
